theory Spec2Isabelle
  imports Main "HOL-Library.Sublist" "HOL-Library.Multiset"
begin

section \<open>Data model of Searchgithub-importsnyk.go\<close>

text \<open>
  The text of a Go \<open>error\<close> (what \<open>err.Error()\<close> and \<open>%v\<close> print) is a string; an
  instant returned by \<open>time.Now().UTC()\<close> is an integer. Go's \<open>int\<close> values are only
  copied by this program, never computed with, so they are modelled as \<open>int\<close>.
\<close>

type_synonym err = string
type_synonym time = int

record Repository =
  ID :: int
  Owner :: string
  Name :: string
  Branch :: string

text \<open>
  \<open>SnykImportPayload\<close>: the fields carry the names of their JSON tags. The marshalled
  body of a request is kept as this structure.
\<close>

record Target =
  owner :: string
  name :: string
  branch :: string

record PayloadFile =
  path :: string

record SnykImportPayload =
  target :: Target
  files :: "PayloadFile list"

record ImportResult =
  RepoID :: int
  Owner :: string
  Name :: string
  FilePath :: string
  Success :: bool
  Error :: string
  ImportedAt :: time

definition snykAPIEndpoint :: string where
  "snykAPIEndpoint = ''https://snyk.io/api/v1''"


section \<open>The Import Client: \<open>importToSnyk\<close>\<close>

text \<open>Formatting of an integer by the verb \<open>%d\<close>.\<close>

definition digit_char :: "nat \<Rightarrow> char" where
  "digit_char d = ''0123456789'' ! d"

fun decimal :: "nat \<Rightarrow> string" where
  "decimal n = (if n < 10 then [digit_char n] else decimal (n div 10) @ [digit_char (n mod 10)])"

declare decimal.simps [simp del]

definition fmt_d :: "int \<Rightarrow> string" where
  "fmt_d i = (if i < 0 then CHR ''-'' # decimal (nat (- i)) else decimal (nat i))"

text \<open>
  Reading a decimal numeral back: the ASCII digits, the value of a digit, the value of a
  sequence of digits, and the value of a numeral with an optional leading minus sign.
\<close>

definition is_digit :: "char \<Rightarrow> bool" where
  "is_digit c \<longleftrightarrow> 48 \<le> (of_char c :: nat) \<and> (of_char c :: nat) \<le> 57"

definition digit_value :: "char \<Rightarrow> nat" where
  "digit_value c = of_char c - 48"

definition read_decimal :: "string \<Rightarrow> nat" where
  "read_decimal cs = foldl (\<lambda>n c. 10 * n + digit_value c) 0 cs"

definition read_d :: "string \<Rightarrow> int" where
  "read_d cs =
     (case cs of
        [] \<Rightarrow> 0
      | c # ds \<Rightarrow> if c = CHR ''-'' then - int (read_decimal ds) else int (read_decimal cs))"

text \<open>
  An HTTP request as \<open>importToSnyk\<close> builds it (with the timeout of the client that
  sends it, in seconds), and what \<open>client.Do\<close> returns for it: an error of the
  transport (no response: connection failure, the 30 second timeout), or a response, of
  which the code reads the status code only.
\<close>

record Request =
  Method :: string
  URL :: string
  Header :: "(string \<times> string) list"
  Body :: SnykImportPayload
  Timeout :: nat

datatype http_reply = TransportError err | Response int

text \<open>
  \<open>json.Marshal\<close> of a structure of strings and \<open>http.NewRequest\<close> with a constant
  method and a constant well-formed URL return no error; the branches of the source on
  their errors are kept.
\<close>

definition json_Marshal :: "SnykImportPayload \<Rightarrow> err + SnykImportPayload" where
  "json_Marshal payload = Inr payload"

definition http_NewRequest :: "string \<Rightarrow> string \<Rightarrow> SnykImportPayload \<Rightarrow> err + Request" where
  "http_NewRequest method url body =
     Inr \<lparr>Method = method, URL = url, Header = [], Body = body, Timeout = 0\<rparr>"

definition Header_Set :: "string \<Rightarrow> string \<Rightarrow> Request \<Rightarrow> Request" where
  "Header_Set k v req = req\<lparr>Header := filter (\<lambda>kv. fst kv \<noteq> k) (Header req) @ [(k, v)]\<rparr>"

text \<open>
  \<open>importToSnyk reply repo filePath snykToken\<close>: \<open>reply\<close> is what \<open>client.Do\<close> returns
  in this call. The result is the list of the requests sent (none or one) and the error
  returned (\<open>None\<close> is Go's \<open>nil\<close>).
\<close>

definition importToSnyk ::
  "http_reply \<Rightarrow> Repository \<Rightarrow> string \<Rightarrow> string \<Rightarrow> Request list \<times> err option" where
  "importToSnyk reply repo filePath snykToken =
     (let payload = \<lparr>target = \<lparr>owner = Repository.Owner repo, name = Repository.Name repo,
                                 branch = Branch repo\<rparr>,
                      files = [\<lparr>path = filePath\<rparr>]\<rparr>
      in case json_Marshal payload of
           Inl e \<Rightarrow> ([], Some e)
         | Inr jsonPayload \<Rightarrow>
             (case http_NewRequest ''POST'' (snykAPIEndpoint @ ''/import/git'') jsonPayload of
                Inl e \<Rightarrow> ([], Some e)
              | Inr req0 \<Rightarrow>
                  (let req1 = Header_Set ''Authorization'' (''token '' @ snykToken) req0;
                       req2 = Header_Set ''Content-Type'' ''application/json'' req1;
                       req = req2\<lparr>Timeout := 30\<rparr>
                   in case reply of
                        TransportError e \<Rightarrow> ([req], Some e)
                      | Response StatusCode \<Rightarrow>
                          if StatusCode \<noteq> 200 \<and> StatusCode \<noteq> 201
                          then ([req], Some (''Snyk API returned status: '' @ fmt_d StatusCode))
                          else ([req], None))))"

section \<open>The result store: \<open>initDB\<close> and \<open>writeImportResult\<close>\<close>

text \<open>
  A row of the table \<open>snyk_imports\<close> as \<open>initDB\<close> declares it. The column
  \<open>error_message\<close> is the only one that admits NULL (\<open>None\<close>). The state of the result
  store is the list of the rows of the table, or \<open>None\<close> while the table does not exist.
\<close>

record import_row =
  row_id :: int
  repo_id :: int
  repo_owner :: string
  repo_name :: string
  file_path :: string
  success :: bool
  error_message :: "string option"
  imported_at :: time

type_synonym store = "import_row list option"

text \<open>
  What the database driver answers in \<open>initDB\<close>: \<open>sql.Open\<close> on the connection string,
  \<open>db.Ping\<close>, and the \<open>CREATE TABLE IF NOT EXISTS\<close> statement. The file imports
  \<open>database/sql\<close> and no driver package: whether the linked program registers a driver
  named \<open>postgres\<close> is part of what \<open>sql.Open\<close> answers.
\<close>

record db_io =
  sql_Open :: "string \<Rightarrow> err option"
  db_Ping :: "err option"
  db_Exec_create :: "err option"

definition dbUser :: string where "dbUser = ''POSTGRES_USER''"
definition dbPass :: string where "dbPass = ''POSTGRES_PASSWORD''"

definition connStr :: "(string \<Rightarrow> string) \<Rightarrow> string" where
  "connStr getenv =
     ''host='' @ ''localhost'' @ '' port='' @ fmt_d 5432 @ '' user='' @ getenv dbUser
       @ '' password='' @ getenv dbPass @ '' dbname='' @ ''github_scan'' @ '' sslmode=disable''"

definition initDB :: "(string \<Rightarrow> string) \<Rightarrow> db_io \<Rightarrow> store \<Rightarrow> err option \<times> store" where
  "initDB getenv io db =
     (case sql_Open io (connStr getenv) of
        Some e \<Rightarrow> (Some e, db)
      | None \<Rightarrow>
          (case db_Ping io of
             Some e \<Rightarrow> (Some e, db)
           | None \<Rightarrow>
               (case db_Exec_create io of
                  Some e \<Rightarrow> (Some e, db)
                | None \<Rightarrow> (None, (case db of None \<Rightarrow> Some [] | Some table \<Rightarrow> Some table)))))"

text \<open>
  The statement of \<open>writeImportResult\<close>. The conflict target is the unique constraint on
  \<open>(repo_owner, repo_name, file_path)\<close>: a row with the key of the result has its
  \<open>success\<close>, \<open>error_message\<close> and \<open>imported_at\<close> set from the result; when there is none,
  a row is inserted, its \<open>id\<close> being the value the sequence of the \<open>SERIAL\<close> column hands
  out. The code passes \<open>result.Error\<close>, a Go string, so the column receives a string
  (the empty string when there was no error), never NULL.
\<close>

definition row_key :: "import_row \<Rightarrow> string \<times> string \<times> string" where
  "row_key r = (repo_owner r, repo_name r, file_path r)"

definition result_key :: "ImportResult \<Rightarrow> string \<times> string \<times> string" where
  "result_key result = (Owner result, Name result, FilePath result)"

definition do_update :: "ImportResult \<Rightarrow> import_row \<Rightarrow> import_row" where
  "do_update result r =
     (if row_key r = result_key result
      then r\<lparr>success := Success result, error_message := Some (Error result),
              imported_at := ImportedAt result\<rparr>
      else r)"

definition new_row :: "int \<Rightarrow> ImportResult \<Rightarrow> import_row" where
  "new_row serial result =
     \<lparr>row_id = serial, repo_id = RepoID result, repo_owner = Owner result,
      repo_name = Name result, file_path = FilePath result, success = Success result,
      error_message = Some (Error result), imported_at = ImportedAt result\<rparr>"

definition upsert :: "int \<Rightarrow> ImportResult \<Rightarrow> import_row list \<Rightarrow> import_row list" where
  "upsert serial result table =
     (if result_key result \<in> set (map row_key table)
      then map (do_update result) table
      else table @ [new_row serial result])"

text \<open>
  What \<open>db.Exec\<close> answers for the statement: an error (the store is left as it was;
  a lost connection, or a value the table refuses, such as an owner longer than
  \<open>VARCHAR(255)\<close>), or success, with the value the sequence handed to the statement.
\<close>

datatype exec_io = ExecError err | ExecOk int

definition writeImportResult :: "exec_io \<Rightarrow> store \<Rightarrow> ImportResult \<Rightarrow> err option \<times> store" where
  "writeImportResult io db result =
     (case io of
        ExecError e \<Rightarrow> (Some e, db)
      | ExecOk serial \<Rightarrow>
          (case db of
             None \<Rightarrow> (Some ''pq: relation \"snyk_imports\" does not exist'', None)
           | Some table \<Rightarrow> (None, Some (upsert serial result table))))"

section \<open>The inventory: \<open>getRepositoriesFromDB\<close>\<close>

text \<open>
  The query answers with an error, or with rows, each of which \<open>rows.Scan\<close> reads into a
  \<open>Repository\<close> or fails on; the first failure is returned.
\<close>

fun scan_repos :: "(err + Repository) list \<Rightarrow> err + Repository list" where
  "scan_repos [] = Inr []"
| "scan_repos (Inl e # rest) = Inl e"
| "scan_repos (Inr repo # rest) =
     (case scan_repos rest of Inl e \<Rightarrow> Inl e | Inr repos \<Rightarrow> Inr (repo # repos))"

definition getRepositoriesFromDB :: "err + (err + Repository) list \<Rightarrow> err + Repository list" where
  "getRepositoriesFromDB q = (case q of Inl e \<Rightarrow> Inl e | Inr rows \<Rightarrow> scan_repos rows)"

section \<open>The Rate Gate: \<open>limiter.Wait\<close>\<close>







section \<open>The worker of one repository\<close>

text \<open>
  What the world answers while the worker handles one row of its \<open>scan_results\<close> query:
  \<open>rows.Scan\<close> (an error, or the file path and the file type), \<open>limiter.Wait\<close>,
  \<open>client.Do\<close> inside \<open>importToSnyk\<close>, and the clock.
\<close>

record row_io =
  scanned :: "err + string \<times> string"
  waited :: "err option"
  replied :: http_reply
  now :: time

text \<open>
  The body of the loop over the rows: the requests sent and the results pushed onto
  \<open>resultsChan\<close>. Both \<open>continue\<close> statements leave the row without a request and
  without a result.
\<close>

definition process_row :: "Repository \<Rightarrow> string \<Rightarrow> row_io \<Rightarrow> Request list \<times> ImportResult list" where
  "process_row repo snykToken io =
     (case scanned io of
        Inl e \<Rightarrow> ([], [])
      | Inr (filePath, fileType) \<Rightarrow>
          (case waited io of
             Some e \<Rightarrow> ([], [])
           | None \<Rightarrow>
               (let (reqs, err) = importToSnyk (replied io) repo filePath snykToken;
                    result = \<lparr>RepoID = ID repo, Owner = Repository.Owner repo,
                              Name = Repository.Name repo, FilePath = filePath,
                              Success = (err = None), Error = [], ImportedAt = now io\<rparr>;
                    result = (case err of None \<Rightarrow> result | Some e \<Rightarrow> result\<lparr>Error := e\<rparr>)
                in (reqs, [result]))))"

fun worker_rows :: "Repository \<Rightarrow> string \<Rightarrow> row_io list \<Rightarrow> Request list \<times> ImportResult list" where
  "worker_rows repo snykToken [] = ([], [])"
| "worker_rows repo snykToken (io # ios) =
     (let (reqs, results) = process_row repo snykToken io;
          (reqs', results') = worker_rows repo snykToken ios
      in (reqs @ reqs', results @ results'))"

text \<open>A failure of the query ends the worker before any row.\<close>

definition worker :: "Repository \<Rightarrow> string \<Rightarrow> err + row_io list \<Rightarrow> Request list \<times> ImportResult list" where
  "worker repo snykToken q =
     (case q of Inl e \<Rightarrow> ([], []) | Inr rows \<Rightarrow> worker_rows repo snykToken rows)"

section \<open>The handoff and the result writer\<close>

text \<open>
  \<open>resultsChan\<close> is a FIFO channel and each worker sends its results in order, so the
  sequence the writer receives is an interleaving of the workers' sequences. The
  interleaving is chosen by the scheduler: \<open>sched\<close> names, receipt by receipt, the worker
  whose next result arrives (an entry naming no worker, or one with nothing left to
  send, is passed over); when \<open>sched\<close> is used up, the remaining results arrive worker
  by worker.
\<close>

fun resultsChan :: "nat list \<Rightarrow> 'a list list \<Rightarrow> 'a list" where
  "resultsChan [] qs = concat qs"
| "resultsChan (i # sched) qs =
     (if i < length qs
      then (case qs ! i of
              [] \<Rightarrow> resultsChan sched qs
            | x # xs \<Rightarrow> x # resultsChan sched (qs[i := xs]))
      else resultsChan sched qs)"

text \<open>
  The writer: one call of \<open>writeImportResult\<close> for each result received, whatever the
  earlier calls returned. \<open>execs k\<close> is what \<open>db.Exec\<close> answers in call number \<open>k\<close>. The
  writer's trace lists the calls with the errors they returned.
\<close>

fun writer ::
  "(nat \<Rightarrow> exec_io) \<Rightarrow> nat \<Rightarrow> ImportResult list \<Rightarrow> store \<Rightarrow> (ImportResult \<times> err option) list \<times> store" where
  "writer execs k [] db = ([], db)"
| "writer execs k (result # results) db =
     (let (e, db') = writeImportResult (execs k) db result;
          (trace, db'') = writer execs (Suc k) results db'
      in ((result, e) # trace, db''))"

section \<open>The coordinator: \<open>main\<close>\<close>

text \<open>
  The environment of a run: the process environment, the answers of the database
  driver, the answer to the inventory query, for the worker launched at position \<open>i\<close>
  the answer to its query with the interactions of each row, the order in which the
  results arrive at the writer, and the answers to the writer's statements.
\<close>

record env =
  getenv :: "string \<Rightarrow> string"
  db_init :: db_io
  inventory :: "err + (err + Repository) list"
  scan_results :: "nat \<Rightarrow> err + row_io list"
  arrival :: "nat list"
  execs :: "nat \<Rightarrow> exec_io"

text \<open>
  What a run did: the workers launched, for each of them the requests sent and the
  results pushed, the writer's calls, and the store at the end.
\<close>

record run =
  launched :: nat
  requests :: "Request list list"
  outcomes :: "ImportResult list list"
  written :: "(ImportResult \<times> err option) list"
  db_final :: store

definition aborted :: "store \<Rightarrow> run" where
  "aborted db = \<lparr>launched = 0, requests = [], outcomes = [], written = [], db_final = db\<rparr>"

definition launch :: "env \<Rightarrow> string \<Rightarrow> Repository list \<Rightarrow> (Request list \<times> ImportResult list) list" where
  "launch e snykToken repos =
     map (\<lambda>(i, repo). worker repo snykToken (scan_results e i)) (enumerate 0 repos)"

definition main :: "env \<Rightarrow> store \<Rightarrow> run" where
  "main e db =
     (case initDB (getenv e) (db_init e) db of
        (Some err, db1) \<Rightarrow> aborted db1
      | (None, db1) \<Rightarrow>
          (let githubToken = getenv e ''GITHUB_TOKEN'';
               snykToken = getenv e ''SNYK_TOKEN''
           in if githubToken = [] \<or> snykToken = [] then aborted db1
              else (case getRepositoriesFromDB (inventory e) of
                      Inl err \<Rightarrow> aborted db1
                    | Inr repos \<Rightarrow>
                        (let ws = launch e snykToken repos;
                             received = resultsChan (arrival e) (map snd ws);
                             (trace, db2) = writer (execs e) 0 received db1
                         in \<lparr>launched = length repos, requests = map fst ws,
                             outcomes = map snd ws, written = trace, db_final = db2\<rparr>))))"

section \<open>The goroutines of \<open>main\<close> and their synchronisation\<close>

text \<open>
  The second half of \<open>main\<close> as a transition system. The state holds, for each worker
  goroutine, the results it has still to send (its remaining loop) and whether its
  deferred \<open>wg.Done()\<close> has run; the buffer of \<open>resultsChan\<close> and whether the channel is
  closed; the results the writer goroutine has received from the channel and passed to
  \<open>writeImportResult\<close>, and whether its deferred \<open>wgWriter.Done()\<close> has run; the place
  of the coordinator, which is at \<open>wg.Wait()\<close>, at \<open>close(resultsChan)\<close>, at
  \<open>wgWriter.Wait()\<close>, or has returned; and whether a goroutine has panicked.
\<close>

datatype phase = WaitWorkers | CloseChan | WaitWriter | Returned

record sys =
  pending :: "ImportResult list list"
  finished :: "bool list"
  chan :: "ImportResult list"
  closed :: bool
  consumed :: "ImportResult list"
  writer_done :: bool
  coord :: phase
  panicked :: bool

text \<open>\<open>make(chan ImportResult, 100)\<close> and the state once every goroutine is started.\<close>

definition chan_capacity :: nat where
  "chan_capacity = 100"

definition init :: "ImportResult list list \<Rightarrow> sys" where
  "init qs = \<lparr>pending = qs, finished = replicate (length qs) False, chan = [], closed = False,
             consumed = [], writer_done = False, coord = WaitWorkers, panicked = False\<rparr>"

text \<open>
  The steps. A worker sends its next result: the send waits while the buffer is full,
  and panics on a closed channel. A worker whose loop is over runs \<open>wg.Done()\<close>. The
  writer receives the oldest result in the buffer, also after the channel is closed; its
  \<open>range\<close> loop ends when the channel is closed and empty, and \<open>wgWriter.Done()\<close> runs.
  \<open>wg.Wait()\<close> returns when every worker is done, \<open>close(resultsChan)\<close> follows, and
  \<open>wgWriter.Wait()\<close> returns when the writer is done. A step that cannot be taken is
  \<open>None\<close>. Nothing runs once \<open>main\<close> has returned, or after a panic.
\<close>

datatype event = Send nat | WorkerDone nat | Receive | WriterExit | WorkersJoined | Close | WriterJoined

fun fire :: "event \<Rightarrow> sys \<Rightarrow> sys option" where
  "fire (Send i) s =
     (if i < length (pending s)
      then (case pending s ! i of
              [] \<Rightarrow> None
            | x # xs \<Rightarrow>
                if closed s then Some (s\<lparr>panicked := True\<rparr>)
                else if length (chan s) < chan_capacity
                then Some (s\<lparr>pending := (pending s)[i := xs], chan := chan s @ [x]\<rparr>)
                else None)
      else None)"
| "fire (WorkerDone i) s =
     (if i < length (pending s) \<and> pending s ! i = [] \<and> \<not> finished s ! i
      then Some (s\<lparr>finished := (finished s)[i := True]\<rparr>)
      else None)"
| "fire Receive s =
     (if writer_done s then None
      else (case chan s of
              [] \<Rightarrow> None
            | x # c \<Rightarrow> Some (s\<lparr>chan := c, consumed := consumed s @ [x]\<rparr>)))"
| "fire WriterExit s =
     (if chan s = [] \<and> closed s \<and> \<not> writer_done s then Some (s\<lparr>writer_done := True\<rparr>)
      else None)"
| "fire WorkersJoined s =
     (if coord s = WaitWorkers \<and> list_all id (finished s) then Some (s\<lparr>coord := CloseChan\<rparr>)
      else None)"
| "fire Close s =
     (if coord s = CloseChan then Some (s\<lparr>closed := True, coord := WaitWriter\<rparr>) else None)"
| "fire WriterJoined s =
     (if coord s = WaitWriter \<and> writer_done s then Some (s\<lparr>coord := Returned\<rparr>) else None)"

definition step :: "event \<Rightarrow> sys \<Rightarrow> sys option" where
  "step ev s = (if coord s = Returned \<or> panicked s then None else fire ev s)"

fun run_events :: "event list \<Rightarrow> sys \<Rightarrow> sys option" where
  "run_events [] s = Some s"
| "run_events (ev # evs) s = (case step ev s of None \<Rightarrow> None | Some s' \<Rightarrow> run_events evs s')"

text \<open>
  \<open>drain sched qs\<close>: what \<open>resultsChan sched qs\<close> has emitted when \<open>sched\<close> is used up,
  and what the workers have left. \<open>work_left\<close> bounds the number of steps still
  possible. \<open>consistent qs s\<close> is the invariant of the system started on the workers'
  sequences \<open>qs\<close>.
\<close>

fun drain :: "nat list \<Rightarrow> 'a list list \<Rightarrow> 'a list \<times> 'a list list" where
  "drain [] qs = ([], qs)"
| "drain (i # sched) qs =
     (if i < length qs
      then (case qs ! i of
              [] \<Rightarrow> drain sched qs
            | x # xs \<Rightarrow> (x # fst (drain sched (qs[i := xs])), snd (drain sched (qs[i := xs]))))
      else drain sched qs)"

definition phase_rank :: "phase \<Rightarrow> nat" where
  "phase_rank p = (case p of WaitWorkers \<Rightarrow> 3 | CloseChan \<Rightarrow> 2 | WaitWriter \<Rightarrow> 1 | Returned \<Rightarrow> 0)"

definition work_left :: "sys \<Rightarrow> nat" where
  "work_left s = 2 * length (concat (pending s)) + length (chan s)
      + length (filter Not (finished s)) + (if writer_done s then 0 else 1)
      + phase_rank (coord s)"

definition consistent :: "ImportResult list list \<Rightarrow> sys \<Rightarrow> bool" where
  "consistent qs s \<longleftrightarrow>
       length (pending s) = length qs \<and> length (finished s) = length qs
     \<and> (\<exists>sched. drain sched qs = (consumed s @ chan s, pending s))
     \<and> (\<forall>i<length qs. finished s ! i \<longrightarrow> pending s ! i = [])
     \<and> (coord s \<noteq> WaitWorkers \<longrightarrow> list_all id (finished s))
     \<and> (closed s \<longleftrightarrow> coord s = WaitWriter \<or> coord s = Returned)
     \<and> (writer_done s \<longrightarrow> closed s \<and> chan s = [])
     \<and> (coord s = Returned \<longrightarrow> writer_done s)
     \<and> \<not> panicked s
     \<and> length (chan s) \<le> chan_capacity"

section \<open>Notions used in the statements\<close>

text \<open>
  A row reaches the submission when \<open>rows.Scan\<close> read it and \<open>limiter.Wait\<close> returned
  no error. \<open>candidates\<close> counts the rows a query yields, \<open>submissions\<close> those that
  reach the submission; a query that fails yields none.
\<close>

definition submitted :: "row_io \<Rightarrow> bool" where
  "submitted io = (case scanned io of Inl e \<Rightarrow> False | Inr p \<Rightarrow> waited io = None)"

definition candidates :: "err + row_io list \<Rightarrow> nat" where
  "candidates q = (case q of Inl e \<Rightarrow> 0 | Inr rows \<Rightarrow> length rows)"

definition submissions :: "err + row_io list \<Rightarrow> nat" where
  "submissions q = (case q of Inl e \<Rightarrow> 0 | Inr rows \<Rightarrow> length (filter submitted rows))"

text \<open>
  The rows of the store (none while the table does not exist), and the unique
  constraint of the table on \<open>(repo_owner, repo_name, file_path)\<close>.
\<close>

definition table_of :: "store \<Rightarrow> import_row list" where
  "table_of db = (case db of None \<Rightarrow> [] | Some table \<Rightarrow> table)"

definition store_ok :: "store \<Rightarrow> bool" where
  "store_ok db = distinct (map row_key (table_of db))"

text \<open>The error \<open>db.Exec\<close> returns for an answer of the database.\<close>

definition exec_err :: "exec_io \<Rightarrow> err option" where
  "exec_err io = (case io of ExecError e \<Rightarrow> Some e | ExecOk s \<Rightarrow> None)"

text \<open>
  The statements the database accepted, in order, each with the value of the sequence
  it was handed; their effect on a table; and their effect on one row that is already
  in the table.
\<close>

fun effective :: "(nat \<Rightarrow> exec_io) \<Rightarrow> nat \<Rightarrow> ImportResult list \<Rightarrow> (int \<times> ImportResult) list" where
  "effective ex k [] = []"
| "effective ex k (r # rs) =
     (case ex k of ExecError e \<Rightarrow> effective ex (Suc k) rs
      | ExecOk s \<Rightarrow> (s, r) # effective ex (Suc k) rs)"

definition upserts :: "(int \<times> ImportResult) list \<Rightarrow> import_row list \<Rightarrow> import_row list" where
  "upserts E table = fold (\<lambda>(s, r). upsert s r) E table"

definition settle :: "(int \<times> ImportResult) list \<Rightarrow> import_row \<Rightarrow> import_row" where
  "settle E r = fold (\<lambda>(s, res). do_update res) E r"

text \<open>
  Forgetting the clock: a result and a row without their instants, and an environment
  in which every reading of the clock is replaced by 0. Two environments with the same
  image under \<open>unclock\<close> differ in the readings of the clock only.
\<close>

definition untimed :: "ImportResult \<Rightarrow> ImportResult" where
  "untimed result = result\<lparr>ImportedAt := 0\<rparr>"

definition untimed_row :: "import_row \<Rightarrow> import_row" where
  "untimed_row r = r\<lparr>imported_at := 0\<rparr>"

definition unclock :: "env \<Rightarrow> env" where
  "unclock e = e\<lparr>scan_results := (\<lambda>i. map_sum id (map (\<lambda>io. io\<lparr>now := 0\<rparr>)) (scan_results e i))\<rparr>"

text \<open>
  The parts of a run of \<open>main\<close>: whether it gets past its three early returns, the
  repositories read, the workers, and the sequence the writer receives.
\<close>

definition started :: "env \<Rightarrow> store \<Rightarrow> bool" where
  "started e db \<longleftrightarrow> fst (initDB (getenv e) (db_init e) db) = None
      \<and> getenv e ''GITHUB_TOKEN'' \<noteq> [] \<and> getenv e ''SNYK_TOKEN'' \<noteq> []
      \<and> (\<exists>repos. getRepositoriesFromDB (inventory e) = Inr repos)"

definition repos_of :: "env \<Rightarrow> Repository list" where
  "repos_of e = (case getRepositoriesFromDB (inventory e) of Inl x \<Rightarrow> [] | Inr repos \<Rightarrow> repos)"

definition workers_of :: "env \<Rightarrow> (Request list \<times> ImportResult list) list" where
  "workers_of e = launch e (getenv e ''SNYK_TOKEN'') (repos_of e)"

definition received_of :: "env \<Rightarrow> ImportResult list" where
  "received_of e = resultsChan (arrival e) (map snd (workers_of e))"

text \<open>The environment \<open>e\<close> in which the query of the worker at position \<open>a\<close> fails.\<close>

definition fail_query :: "nat \<Rightarrow> err \<Rightarrow> env \<Rightarrow> env" where
  "fail_query a err e = e\<lparr>scan_results := (scan_results e)(a := Inl err)\<rparr>"

section \<open>Concrete runs\<close>

text \<open>
  The end-to-end scenario of the specification: one repository \<open>acme/api\<close> on branch
  \<open>main\<close>, the files \<open>go.mod\<close> (the API answers 201) and \<open>package.json\<close> (the API
  answers 500), both credentials set, a database that answers every statement.
\<close>

definition acme_api :: Repository where
  "acme_api = \<lparr>ID = 1, Owner = ''acme'', Name = ''api'', Branch = ''main''\<rparr>"

definition db_up :: db_io where
  "db_up = \<lparr>sql_Open = (\<lambda>c. None), db_Ping = None, db_Exec_create = None\<rparr>"

definition both_tokens :: "string \<Rightarrow> string" where
  "both_tokens k = (if k = ''GITHUB_TOKEN'' then ''ghp_1'' else if k = ''SNYK_TOKEN'' then ''snyk_1'' else [])"

definition scenario_rows :: "row_io list" where
  "scenario_rows =
     [\<lparr>scanned = Inr (''go.mod'', ''gomod''), waited = None, replied = Response 201, now = 10\<rparr>,
      \<lparr>scanned = Inr (''package.json'', ''npm''), waited = None, replied = Response 500,
        now = 20\<rparr>]"

definition scenario :: env where
  "scenario =
     \<lparr>getenv = both_tokens, db_init = db_up, inventory = Inr [Inr acme_api],
      scan_results = (\<lambda>i. Inr scenario_rows),
      arrival = [], execs = (\<lambda>k. ExecOk (int k + 1))\<rparr>"


text \<open>The same run an hour later: every reading of the clock is 3600 larger.\<close>

definition scenario_later :: env where
  "scenario_later =
     scenario\<lparr>scan_results := (\<lambda>i. Inr (map (\<lambda>io. io\<lparr>now := now io + 3600\<rparr>) scenario_rows))\<rparr>"

text \<open>
  Two repositories with the files of the scenario, their results arriving alternately;
  and the same run an hour later, the results of the second worker arriving first.
\<close>

definition two_repos :: env where
  "two_repos =
     scenario\<lparr>inventory := Inr [Inr \<lparr>ID = 7, Owner = ''acme'', Name = ''web'', Branch = ''main''\<rparr>,
                               Inr acme_api],
              arrival := [0, 1, 0, 1]\<rparr>"

definition two_repos_later :: env where
  "two_repos_later =
     two_repos\<lparr>scan_results := (\<lambda>i. Inr (map (\<lambda>io. io\<lparr>now := now io + 3600\<rparr>) scenario_rows)),
               arrival := [1, 1, 0, 0]\<rparr>"

text \<open>The scenario without \<open>GITHUB_TOKEN\<close> in the process environment.\<close>

definition no_github_token :: env where
  "no_github_token = scenario\<lparr>getenv := (\<lambda>k. if k = ''SNYK_TOKEN'' then ''snyk_1'' else [])\<rparr>"

text \<open>
  The scenario with a single row of \<open>scan_results\<close> whose \<open>file_type\<close> is NULL:
  \<open>rows.Scan\<close> into a Go string fails on it.
\<close>

definition unreadable_row :: env where
  "unreadable_row =
     scenario\<lparr>scan_results :=
       (\<lambda>i. Inr [\<lparr>scanned = Inl ''sql: Scan error on column index 1, name \"file_type\": converting NULL to string is unsupported'',
                   waited = None, replied = Response 201, now = 10\<rparr>])\<rparr>"

text \<open>A store in which \<open>package.json\<close> of \<open>acme/api\<close> was imported with success before.\<close>

definition stale_store :: store where
  "stale_store =
     Some [\<lparr>row_id = 40, repo_id = 1, repo_owner = ''acme'', repo_name = ''api'',
            file_path = ''package.json'', success = True, error_message = Some [],
            imported_at = 1\<rparr>]"

text \<open>
  Two repositories, \<open>acme/web\<close> and \<open>acme/api\<close>; the query of the first worker fails.
\<close>

definition query_fails :: env where
  "query_fails =
     scenario\<lparr>inventory := Inr [Inr \<lparr>ID = 7, Owner = ''acme'', Name = ''web'', Branch = ''main''\<rparr>,
                               Inr acme_api],
              scan_results := (\<lambda>i. if i = 0 then Inl ''pq: canceling statement due to statement timeout''
                                    else Inr scenario_rows)\<rparr>"

text \<open>
  A schedule of the scenario's goroutines: the worker sends its two results, the writer
  receives one before and one after the channel is closed.
\<close>

definition scenario_events :: "event list" where
  "scenario_events =
     [Send 0, Receive, Send 0, WorkerDone 0, WorkersJoined, Close, Receive, WriterExit,
      WriterJoined]"

section \<open>Properties of the Import Client\<close>

lemma importToSnyk_sends_one: "length (fst (importToSnyk reply repo filePath snykToken)) = 1"
  by (simp add: importToSnyk_def json_Marshal_def http_NewRequest_def Let_def
      split: http_reply.split)

lemma fmt_d_500: "fmt_d 500 = ''500''"
  by (simp add: fmt_d_def decimal.simps digit_char_def)

lemma sublist_of_suffix: "sublist xs (ps @ xs)"
  using sublist_appendI [of xs ps "[]"] by simp

lemma digit_char_value: "d < 10 \<Longrightarrow> digit_value (digit_char d) = d \<and> is_digit (digit_char d)"
proof -
  assume "d < 10"
  then have "d = 0 \<or> d = 1 \<or> d = 2 \<or> d = 3 \<or> d = 4 \<or> d = 5 \<or> d = 6 \<or> d = 7 \<or> d = 8 \<or> d = 9"
    by arith
  then show ?thesis
    by (elim disjE) (simp_all add: digit_char_def digit_value_def is_digit_def)
qed

lemma read_decimal_snoc: "read_decimal (cs @ [c]) = 10 * read_decimal cs + digit_value c"
  by (simp add: read_decimal_def)

lemma read_decimal_decimal: "read_decimal (decimal n) = n"
proof (induction n rule: decimal.induct)
  case (1 n)
  show ?case
  proof (cases "n < 10")
    case True
    then show ?thesis
      using digit_char_value [of n] by (subst decimal.simps) (simp add: read_decimal_def)
  next
    case False
    have "n mod 10 < 10" by simp
    then have "digit_value (digit_char (n mod 10)) = n mod 10"
      using digit_char_value by blast
    then show ?thesis
      using False 1 [OF False] by (subst decimal.simps) (simp add: read_decimal_snoc)
  qed
qed

lemma digits_decimal: "decimal n \<noteq> [] \<and> list_all is_digit (decimal n)"
proof (induction n rule: decimal.induct)
  case (1 n)
  show ?case
  proof (cases "n < 10")
    case True
    then show ?thesis
      using digit_char_value [of n] by (subst (1 2) decimal.simps) simp
  next
    case False
    have "n mod 10 < 10" by simp
    then have "is_digit (digit_char (n mod 10))"
      using digit_char_value by blast
    then show ?thesis
      using False 1 [OF False] by (subst (1 2) decimal.simps) simp
  qed
qed

lemma minus_not_digit: "\<not> is_digit CHR ''-''"
  by (simp add: is_digit_def)

lemma read_d_fmt_d: "read_d (fmt_d i) = i"
proof (cases "i < 0")
  case True
  then show ?thesis by (simp add: fmt_d_def read_d_def read_decimal_decimal)
next
  case False
  obtain c ds where cs: "decimal (nat i) = c # ds"
    using digits_decimal [of "nat i"] by (cases "decimal (nat i)") auto
  then have "is_digit c" using digits_decimal [of "nat i"] by simp
  then have "c \<noteq> CHR ''-''" using minus_not_digit by auto
  then have "read_d (decimal (nat i)) = int (read_decimal (decimal (nat i)))"
    using cs by (simp add: read_d_def)
  then show ?thesis using False by (simp add: fmt_d_def read_decimal_decimal)
qed

lemma read_d_500: "read_d ''500'' = 500"
  by (simp add: read_d_def read_decimal_def digit_value_def)

text \<open>
  Claim C3. For every repository, file path and token, \<open>importToSnyk\<close> sends its request
  and returns no error exactly when the downstream API responds with status 200 or 201;
  for a response with any other status it returns an error whose text is
  \<open>Snyk API returned status: \<close> followed by the status code in decimal: what follows the
  prefix is not empty, is made of ASCII digits when the code is not negative, and reads
  back as the code. So the text contains the code.
\<close>

theorem importToSnyk_status:
  "(snd (importToSnyk reply repo filePath snykToken) = None
      \<longleftrightarrow> reply = Response 200 \<or> reply = Response 201)
   \<and> (\<forall>code. reply = Response code \<and> code \<noteq> 200 \<and> code \<noteq> 201 \<longrightarrow>
         (\<exists>e. snd (importToSnyk reply repo filePath snykToken) = Some e
              \<and> e = ''Snyk API returned status: '' @ fmt_d code
              \<and> sublist (fmt_d code) e
              \<and> read_d (drop (length ''Snyk API returned status: '') e) = code
              \<and> fmt_d code \<noteq> []
              \<and> (0 \<le> code \<longrightarrow> list_all is_digit (fmt_d code))))"
proof -
  have sub: "sublist (fmt_d c) (''Snyk API returned status: '' @ fmt_d c)" for c
    by (rule sublist_of_suffix)
  have rd: "read_d (drop (length ''Snyk API returned status: '') (''Snyk API returned status: '' @ fmt_d c)) = c" for c
    by (simp add: read_d_fmt_d)
  have ne: "fmt_d c \<noteq> []" for c
    using digits_decimal by (simp add: fmt_d_def)
  have dg: "0 \<le> c \<longrightarrow> list_all is_digit (fmt_d c)" for c
    using digits_decimal by (simp add: fmt_d_def)
  show ?thesis
  proof (cases reply)
    case (TransportError e)
    then show ?thesis
      by (simp add: importToSnyk_def json_Marshal_def http_NewRequest_def Let_def)
  next
    case (Response c)
    have r: "snd (importToSnyk (Response c) repo filePath snykToken)
        = (if c \<noteq> 200 \<and> c \<noteq> 201 then Some (''Snyk API returned status: '' @ fmt_d c) else None)"
      by (simp add: importToSnyk_def json_Marshal_def http_NewRequest_def Let_def)
    show ?thesis
    proof (cases "c \<noteq> 200 \<and> c \<noteq> 201")
      case True
      then have "snd (importToSnyk reply repo filePath snykToken)
          = Some (''Snyk API returned status: '' @ fmt_d c)"
        using r Response by simp
      then show ?thesis
        using True Response sub [of c] rd [of c] ne [of c] dg [of c] by auto
    next
      case False
      then show ?thesis using r Response by auto
    qed
  qed
qed

text \<open>The statuses of the scenario: 201, and 500 with its text.\<close>

theorem importToSnyk_status_witness:
  "snd (importToSnyk (Response 201) \<lparr>ID = 1, Owner = ''acme'', Name = ''api'', Branch = ''main''\<rparr>
          ''go.mod'' ''t'') = None
   \<and> snd (importToSnyk (Response 500) \<lparr>ID = 1, Owner = ''acme'', Name = ''api'', Branch = ''main''\<rparr>
          ''package.json'' ''t'') = Some ''Snyk API returned status: 500''
   \<and> sublist ''500'' ''Snyk API returned status: 500''
   \<and> read_d ''500'' = 500"
proof -
  let ?repo = "\<lparr>ID = 1, Owner = ''acme'', Name = ''api'', Branch = ''main''\<rparr>"
  have a: "snd (importToSnyk (Response 201) ?repo ''go.mod'' ''t'') = None"
    using importToSnyk_status [of "Response 201" ?repo "''go.mod''" "''t''"] by simp
  have "\<exists>e. snd (importToSnyk (Response 500) ?repo ''package.json'' ''t'') = Some e
          \<and> e = ''Snyk API returned status: '' @ fmt_d 500 \<and> sublist (fmt_d 500) e"
    using importToSnyk_status [of "Response 500" ?repo "''package.json''" "''t''"] by simp
  then have b: "snd (importToSnyk (Response 500) ?repo ''package.json'' ''t'')
        = Some (''Snyk API returned status: '' @ fmt_d 500)"
    and c: "sublist (fmt_d 500) (''Snyk API returned status: '' @ fmt_d 500)"
    by auto
  have b': "snd (importToSnyk (Response 500) ?repo ''package.json'' ''t'')
        = Some ''Snyk API returned status: 500''"
    using b by (simp add: fmt_d_500)
  have c': "sublist ''500'' ''Snyk API returned status: 500''"
    using c by (simp add: fmt_d_500)
  show ?thesis using a b' c' read_d_500 by blast
qed

section \<open>Properties of the store, the workers and the run\<close>

lemma row_key_do_update [simp]: "row_key (do_update result r) = row_key r"
  by (simp add: do_update_def row_key_def)

lemma row_id_do_update [simp]: "row_id (do_update result r) = row_id r"
  by (simp add: do_update_def)

lemma repo_id_do_update [simp]: "repo_id (do_update result r) = repo_id r"
  by (simp add: do_update_def)

lemma row_key_new_row [simp]: "row_key (new_row serial result) = result_key result"
  by (simp add: new_row_def row_key_def result_key_def)

lemma row_key_comp_do_update [simp]: "row_key \<circ> do_update result = row_key"
  by (rule ext) simp

lemma map_row_key_update: "map row_key (map (do_update result) table) = map row_key table"
  by simp

lemma keys_upsert:
  "set (map row_key (upsert serial result table)) = insert (result_key result) (set (map row_key table))"
proof (cases "result_key result \<in> set (map row_key table)")
  case True
  then have "upsert serial result table = map (do_update result) table"
    by (simp add: upsert_def)
  then have "map row_key (upsert serial result table) = map row_key table"
    by simp
  then show ?thesis using True by (simp add: insert_absorb)
next
  case False
  then show ?thesis by (simp add: upsert_def)
qed

lemma distinct_upsert:
  "distinct (map row_key table) \<Longrightarrow> distinct (map row_key (upsert serial result table))"
  by (simp add: upsert_def)

lemma length_upsert_conflict:
  "result_key result \<in> set (map row_key table) \<Longrightarrow> upsert serial result table = map (do_update result) table"
  by (simp add: upsert_def)

lemma filter_key_distinct:
  "distinct (map row_key table) \<Longrightarrow> r \<in> set table \<Longrightarrow> filter (\<lambda>x. row_key x = row_key r) table = [r]"
proof (induction table)
  case Nil
  then show ?case by simp
next
  case (Cons a table)
  show ?case
  proof (cases "a = r")
    case True
    have "row_key r \<notin> row_key ` set table"
      using Cons.prems(1) True by simp
    then have "\<forall>x\<in>set table. row_key x \<noteq> row_key r"
      by (metis imageI)
    then have "filter (\<lambda>x. row_key x = row_key r) table = []"
      by (simp add: filter_empty_conv)
    then show ?thesis using True by simp
  next
    case False
    then have "r \<in> set table" using Cons.prems(2) by simp
    moreover have "row_key a \<notin> row_key ` set table"
      using Cons.prems(1) by simp
    then have "row_key a \<noteq> row_key r"
      using calculation by (metis imageI)
    ultimately show ?thesis using Cons by simp
  qed
qed

lemma upsert_has_row:
  "\<exists>r \<in> set (upsert serial result table). row_key r = result_key result
      \<and> success r = Success result \<and> error_message r = Some (Error result)
      \<and> imported_at r = ImportedAt result"
proof (cases "result_key result \<in> set (map row_key table)")
  case True
  then obtain r0 where r0: "r0 \<in> set table" "row_key r0 = result_key result" by auto
  then have "do_update result r0 \<in> set (upsert serial result table)"
    using True by (simp add: upsert_def)
  moreover have "success (do_update result r0) = Success result"
    "error_message (do_update result r0) = Some (Error result)"
    "imported_at (do_update result r0) = ImportedAt result"
    using r0 by (simp_all add: do_update_def)
  ultimately show ?thesis using r0(2) by (metis row_key_do_update)
next
  case False
  then have "new_row serial result \<in> set (upsert serial result table)"
    by (simp add: upsert_def)
  then show ?thesis by (rule bexI [rotated]) (simp add: new_row_def row_key_def result_key_def)
qed

lemma upsert_one_row:
  assumes "distinct (map row_key table)"
  shows "\<exists>r. filter (\<lambda>x. row_key x = result_key result) (upsert serial result table) = [r]
      \<and> success r = Success result \<and> error_message r = Some (Error result)
      \<and> imported_at r = ImportedAt result"
proof -
  obtain r where r: "r \<in> set (upsert serial result table)" "row_key r = result_key result"
    "success r = Success result" "error_message r = Some (Error result)"
    "imported_at r = ImportedAt result"
    using upsert_has_row by blast
  have "filter (\<lambda>x. row_key x = row_key r) (upsert serial result table) = [r]"
    using distinct_upsert [OF assms] r(1) by (rule filter_key_distinct)
  then show ?thesis using r by auto
qed

lemma upserts_simps [simp]:
  "upserts [] table = table"
  "upserts ((s, r) # E) table = upserts E (upsert s r table)"
  "upserts (E @ E') table = upserts E' (upserts E table)"
  by (simp_all add: upserts_def)

lemma settle_simps [simp]:
  "settle [] r = r"
  "settle ((s, res) # E) r = settle E (do_update res r)"
  "settle (E @ E') r = settle E' (settle E r)"
  by (simp_all add: settle_def)

lemma writer_Cons:
  "writer ex k (r # rs) db =
     ((r, fst (writeImportResult (ex k) db r))
        # fst (writer ex (Suc k) rs (snd (writeImportResult (ex k) db r))),
      snd (writer ex (Suc k) rs (snd (writeImportResult (ex k) db r))))"
  by (simp add: split_beta)

lemma writer_store:
  "snd (writer ex k L (Some table)) = Some (upserts (effective ex k L) table)"
proof (induction L arbitrary: k table)
  case Nil
  then show ?case by simp
next
  case (Cons r L)
  show ?case
  proof (cases "ex k")
    case (ExecError e)
    then show ?thesis using Cons [of "Suc k" table]
      by (simp add: writeImportResult_def writer_Cons del: writer.simps)
  next
    case (ExecOk s)
    then show ?thesis using Cons [of "Suc k" "upsert s r table"]
      by (simp add: writeImportResult_def writer_Cons del: writer.simps)
  qed
qed

lemma writer_trace: "map fst (fst (writer ex k L db)) = L"
  by (induction L arbitrary: k db) (simp_all add: writer_Cons del: writer.simps(2))

lemma distinct_upserts:
  "distinct (map row_key table) \<Longrightarrow> distinct (map row_key (upserts E table))"
proof (induction E arbitrary: table)
  case Nil
  then show ?case by simp
next
  case (Cons a E)
  obtain s r where a: "a = (s, r)" by (cases a)
  show ?case using Cons.IH [OF distinct_upsert [OF Cons.prems, of s r]] a by simp
qed

lemma keys_upserts:
  "set (map row_key (upserts E table)) = set (map row_key table) \<union> set (map (result_key \<circ> snd) E)"
proof (induction E arbitrary: table)
  case Nil
  then show ?case by simp
next
  case (Cons a E)
  obtain s r where a: "a = (s, r)" by (cases a)
  have "set (map row_key (upserts E (upsert s r table)))
      = set (map row_key (upsert s r table)) \<union> set (map (result_key \<circ> snd) E)"
    by (rule Cons.IH)
  then show ?case using a keys_upsert [of s r table] by simp
qed

lemma settle_frame [simp]:
  "row_key (settle E r) = row_key r" "row_id (settle E r) = row_id r" "repo_id (settle E r) = repo_id r"
proof (induction E arbitrary: r)
  case Nil
  { case 1 show ?case by simp }
  { case 2 show ?case by simp }
  { case 3 show ?case by simp }
next
  case (Cons a E)
  obtain s res where a: "a = (s, res)" by (cases a)
  { case 1 show ?case using Cons.IH(1) [of "do_update res r"] a by simp }
  { case 2 show ?case using Cons.IH(2) [of "do_update res r"] a by simp }
  { case 3 show ?case using Cons.IH(3) [of "do_update res r"] a by simp }
qed

lemma upserts_present:
  "set (map (result_key \<circ> snd) E) \<subseteq> set (map row_key table) \<Longrightarrow> upserts E table = map (settle E) table"
proof (induction E arbitrary: table)
  case Nil
  then show ?case by simp
next
  case (Cons a E)
  obtain s res where a: "a = (s, res)" by (cases a)
  have in_t: "result_key res \<in> set (map row_key table)" using Cons.prems a by simp
  then have u: "upsert s res table = map (do_update res) table"
    by (simp add: upsert_def)
  have "set (map (result_key \<circ> snd) E) \<subseteq> set (map row_key (map (do_update res) table))"
    using Cons.prems by (simp add: map_row_key_update)
  then have "upserts E (map (do_update res) table) = map (settle E) (map (do_update res) table)"
    by (rule Cons.IH)
  then show ?case using a u by simp
qed

lemma settle_three:
  "settle E r = r\<lparr>success := success (settle E r), error_message := error_message (settle E r),
                  imported_at := imported_at (settle E r)\<rparr>"
proof (induction E arbitrary: r)
  case Nil
  then show ?case by simp
next
  case (Cons a E)
  obtain s res where a: "a = (s, res)" by (cases a)
  have "settle E (do_update res r) = (do_update res r)\<lparr>success := success (settle E (do_update res r)),
      error_message := error_message (settle E (do_update res r)),
      imported_at := imported_at (settle E (do_update res r))\<rparr>"
    by (rule Cons.IH)
  then show ?case using a by (cases "row_key r = result_key res") (simp_all add: do_update_def)
qed

lemma do_update_override:
  assumes "row_key x = result_key res"
  shows "do_update res (settle E x) = do_update res x"
proof -
  have "row_key (settle E x) = result_key res" using assms by simp
  then have "do_update res (settle E x)
      = (settle E x)\<lparr>success := Success res, error_message := Some (Error res),
                       imported_at := ImportedAt res\<rparr>"
    by (simp add: do_update_def)
  also have "\<dots> = x\<lparr>success := Success res, error_message := Some (Error res),
                       imported_at := ImportedAt res\<rparr>"
    by (subst settle_three) simp
  also have "\<dots> = do_update res x" using assms by (simp add: do_update_def)
  finally show ?thesis .
qed

lemma do_update_other: "row_key x \<noteq> result_key res \<Longrightarrow> do_update res x = x"
  by (simp add: do_update_def)

lemma do_update_idem: "do_update res (do_update res x) = do_update res x"
  by (simp add: do_update_def row_key_def)

lemma do_update_new_row: "do_update res (new_row s res) = new_row s res"
  by (simp add: do_update_def new_row_def)

lemma upserts_settled:
  "x \<in> set (upserts E table) \<Longrightarrow> settle E x = x"
proof (induction E arbitrary: x rule: rev_induct)
  case Nil
  then show ?case by simp
next
  case (snoc a E)
  obtain s res where a: "a = (s, res)" by (cases a)
  let ?T = "upserts E table"
  have x: "x \<in> set (upsert s res ?T)" using snoc.prems a by simp
  have goal: "settle (E @ [a]) x = do_update res (settle E x)" using a by simp
  show ?case
  proof (cases "result_key res \<in> set (map row_key ?T)")
    case True
    then obtain r' where r': "r' \<in> set ?T" "x = do_update res r'"
      using x by (auto simp: upsert_def)
    show ?thesis
    proof (cases "row_key r' = result_key res")
      case True
      then have "row_key x = result_key res" using r' by simp
      then have "do_update res (settle E x) = do_update res x" by (rule do_update_override)
      then show ?thesis using goal r' by (simp add: do_update_idem)
    next
      case False
      then have "x = r'" using r' by (simp add: do_update_other)
      then show ?thesis using goal snoc.IH [OF r'(1)] False by (simp add: do_update_other)
    qed
  next
    case False
    then have "x \<in> set ?T \<or> x = new_row s res" using x by (auto simp: upsert_def)
    then show ?thesis
    proof
      assume in_T: "x \<in> set ?T"
      then have "row_key x \<in> set (map row_key ?T)" by simp
      then have "row_key x \<noteq> result_key res" using False by metis
      then show ?thesis using goal snoc.IH [OF in_T] by (simp add: do_update_other)
    next
      assume nr: "x = new_row s res"
      then have "row_key x = result_key res" by simp
      then have "do_update res (settle E x) = do_update res x" by (rule do_update_override)
      then show ?thesis using goal nr by (simp add: do_update_new_row)
    qed
  qed
qed

lemma untimed_do_update:
  assumes "untimed res2 = untimed res1" "untimed_row r2 = untimed_row r1"
  shows "untimed_row (do_update res2 r2) = untimed_row (do_update res1 r1)"
proof -
  have k: "result_key res2 = result_key res1" "Success res2 = Success res1" "Error res2 = Error res1"
    using assms(1) by (cases res1; cases res2; simp add: untimed_def result_key_def)+
  have rk: "row_key r2 = row_key r1"
    using assms(2) by (cases r1; cases r2; simp add: untimed_row_def row_key_def)
  show ?thesis
    using assms(2) k rk by (cases r1; cases r2; simp add: untimed_row_def do_update_def)
qed

lemma untimed_settle:
  "map (untimed \<circ> snd) E2 = map (untimed \<circ> snd) E1 \<Longrightarrow> untimed_row r2 = untimed_row r1
     \<Longrightarrow> untimed_row (settle E2 r2) = untimed_row (settle E1 r1)"
proof (induction E1 arbitrary: E2 r1 r2)
  case Nil
  then show ?case by simp
next
  case (Cons a E1)
  obtain s1 res1 where a: "a = (s1, res1)" by (cases a)
  obtain b E2' where E2: "E2 = b # E2'" using Cons.prems(1) by (cases E2) auto
  obtain s2 res2 where b: "b = (s2, res2)" by (cases b)
  have u: "untimed res2 = untimed res1" and rest: "map (untimed \<circ> snd) E2' = map (untimed \<circ> snd) E1"
    using Cons.prems(1) a b E2 by (simp_all add: comp_def)
  have "untimed_row (settle E2' (do_update res2 r2)) = untimed_row (settle E1 (do_update res1 r1))"
    using rest untimed_do_update [OF u Cons.prems(2)] by (rule Cons.IH)
  then show ?case using a b E2 by simp
qed

lemma result_key_untimed: "result_key (untimed r) = result_key r"
  by (simp add: untimed_def result_key_def)

lemma keys_of_untimed:
  fixes E1 E2 :: "(int \<times> ImportResult) list"
  assumes "map (untimed \<circ> snd) E2 = map (untimed \<circ> snd) E1"
  shows "map (result_key \<circ> snd) E2 = map (result_key \<circ> snd) E1"
proof -
  have e: "map (result_key \<circ> snd) E = map result_key (map (untimed \<circ> snd) E)"
    for E :: "(int \<times> ImportResult) list"
    by (simp add: result_key_untimed comp_def)
  have "map result_key (map (untimed \<circ> snd) E2) = map result_key (map (untimed \<circ> snd) E1)"
    by (rule arg_cong [OF assms])
  then show ?thesis by (simp only: e)
qed

lemma upserts_again:
  assumes "map (untimed \<circ> snd) E2 = map (untimed \<circ> snd) E1"
  shows "map untimed_row (upserts E2 (upserts E1 table)) = map untimed_row (upserts E1 table)"
    and "map row_key (upserts E2 (upserts E1 table)) = map row_key (upserts E1 table)"
proof -
  let ?T1 = "upserts E1 table"
  have "set (map (result_key \<circ> snd) E2) \<subseteq> set (map row_key ?T1)"
    using keys_of_untimed [OF assms] keys_upserts [of E1 table] by simp
  then have eq: "upserts E2 ?T1 = map (settle E2) ?T1" by (rule upserts_present)
  have "untimed_row (settle E2 x) = untimed_row x" if "x \<in> set ?T1" for x
  proof -
    have "untimed_row (settle E2 x) = untimed_row (settle E1 x)"
      using assms by (rule untimed_settle) simp
    then show ?thesis using upserts_settled [OF that] by simp
  qed
  then show "map untimed_row (upserts E2 ?T1) = map untimed_row ?T1"
    using eq by simp
  show "map row_key (upserts E2 ?T1) = map row_key ?T1"
    using eq by (simp add: comp_def)
qed

lemma upserts_same_again: "upserts E (upserts E table) = upserts E table"
proof -
  let ?T1 = "upserts E table"
  have "set (map (result_key \<circ> snd) E) \<subseteq> set (map row_key ?T1)"
    using keys_upserts [of E table] by simp
  then have "upserts E ?T1 = map (settle E) ?T1" by (rule upserts_present)
  also have "\<dots> = ?T1" using upserts_settled by (simp add: map_idI)
  finally show ?thesis .
qed

lemma worker_rows_Cons:
  "worker_rows repo tok (io # ios) =
     (fst (process_row repo tok io) @ fst (worker_rows repo tok ios),
      snd (process_row repo tok io) @ snd (worker_rows repo tok ios))"
  by (simp add: split_beta)

lemma worker_rows_concat:
  "worker_rows repo tok rows =
     (concat (map (fst \<circ> process_row repo tok) rows), concat (map (snd \<circ> process_row repo tok) rows))"
  by (induction rows) (simp_all add: worker_rows_Cons del: worker_rows.simps(2))

lemma worker_rows_append:
  "worker_rows repo tok (rows @ rows') =
     (fst (worker_rows repo tok rows) @ fst (worker_rows repo tok rows'),
      snd (worker_rows repo tok rows) @ snd (worker_rows repo tok rows'))"
  by (simp add: worker_rows_concat)

lemma process_row_submitted:
  "submitted io \<Longrightarrow> length (snd (process_row repo tok io)) = 1 \<and> length (fst (process_row repo tok io)) = 1"
  using importToSnyk_sends_one [of "replied io" repo _ tok]
  by (auto simp: submitted_def process_row_def split_beta Let_def split: sum.splits option.splits)

lemma process_row_skipped:
  "\<not> submitted io \<Longrightarrow> process_row repo tok io = ([], [])"
  by (auto simp: submitted_def process_row_def split: sum.splits option.splits)

lemma length_process_row:
  "length (snd (process_row repo tok io)) = (if submitted io then 1 else 0)"
  "length (fst (process_row repo tok io)) = (if submitted io then 1 else 0)"
  using process_row_submitted [of io repo tok] process_row_skipped [of io repo tok]
  by auto

lemma length_worker_rows:
  "length (snd (worker_rows repo tok rows)) = length (filter submitted rows)"
  "length (fst (worker_rows repo tok rows)) = length (filter submitted rows)"
  by (induction rows) (simp_all add: worker_rows_Cons length_process_row del: worker_rows.simps(2))

lemma length_worker:
  "length (snd (worker repo tok q)) = submissions q"
  "length (fst (worker repo tok q)) = submissions q"
  by (simp_all add: worker_def submissions_def length_worker_rows split: sum.split)

lemma mset_resultsChan: "mset (resultsChan sched qs) = mset (concat qs)"
proof (induction sched qs rule: resultsChan.induct)
  case (1 qs)
  then show ?case by simp
next
  case (2 i sched qs)
  show ?case
  proof (cases "i < length qs")
    case False
    then show ?thesis using 2 by simp
  next
    case True
    show ?thesis
    proof (cases "qs ! i")
      case Nil
      then show ?thesis using 2 True by simp
    next
      case (Cons x xs)
      have split: "qs = take i qs @ (x # xs) # drop (Suc i) qs"
        using True Cons by (metis id_take_nth_drop)
      have upd: "qs[i := xs] = take i qs @ xs # drop (Suc i) qs"
        using True by (simp add: upd_conv_take_nth_drop)
      have "mset (concat qs) = mset (concat (take i qs)) + mset (x # xs) + mset (concat (drop (Suc i) qs))"
        by (subst split) simp
      moreover have "mset (concat (qs[i := xs])) = mset (concat (take i qs)) + mset xs + mset (concat (drop (Suc i) qs))"
        by (subst upd) simp
      ultimately have "mset (concat qs) = add_mset x (mset (concat (qs[i := xs])))"
        by simp
      then show ?thesis using 2(2) [OF True Cons] True Cons by simp
    qed
  qed
qed

lemma length_resultsChan: "length (resultsChan sched qs) = length (concat qs)"
  using mset_resultsChan [of sched qs] by (metis size_mset)

lemma resultsChan_single: "resultsChan sched [q] = q"
proof (induction sched arbitrary: q)
  case Nil
  then show ?case by simp
next
  case (Cons i sched)
  then show ?case by (cases q) simp_all
qed

lemma resultsChan_map: "resultsChan sched (map (map f) qs) = map f (resultsChan sched qs)"
proof (induction sched qs rule: resultsChan.induct)
  case (1 qs)
  then show ?case by (simp add: map_concat)
next
  case (2 i sched qs)
  show ?case
  proof (cases "i < length qs")
    case False
    then show ?thesis using 2 by simp
  next
    case True
    show ?thesis
    proof (cases "qs ! i")
      case Nil
      then show ?thesis using 2 True by simp
    next
      case (Cons x xs)
      have "resultsChan sched (map (map f) (qs[i := xs])) = map f (resultsChan sched (qs[i := xs]))"
        by (rule 2(2) [OF True Cons])
      then show ?thesis using True Cons by (simp add: map_update)
    qed
  qed
qed

lemma main_aborted:
  "\<not> started e db \<Longrightarrow> main e db = aborted (snd (initDB (getenv e) (db_init e) db))"
  by (cases "initDB (getenv e) (db_init e) db")
     (auto simp: started_def main_def Let_def split: option.splits sum.splits)

lemma main_started:
  "started e db \<Longrightarrow> main e db =
     \<lparr>launched = length (repos_of e), requests = map fst (workers_of e),
      outcomes = map snd (workers_of e),
      written = fst (writer (execs e) 0 (received_of e) (snd (initDB (getenv e) (db_init e) db))),
      db_final = snd (writer (execs e) 0 (received_of e) (snd (initDB (getenv e) (db_init e) db)))\<rparr>"
  by (cases "initDB (getenv e) (db_init e) db")
     (auto simp: started_def main_def Let_def repos_of_def workers_of_def received_of_def
        split_beta split: option.splits sum.splits)

lemma initDB_started:
  "fst (initDB genv io db) = None \<Longrightarrow> snd (initDB genv io db) = Some (table_of db)"
  by (auto simp: initDB_def table_of_def split: option.splits)

lemma initDB_table: "table_of (snd (initDB genv io db)) = table_of db"
  by (auto simp: initDB_def table_of_def split: option.splits)

lemma initDB_fails:
  "fst (initDB genv io db) \<noteq> None \<Longrightarrow> snd (initDB genv io db) = db"
  by (auto simp: initDB_def split: option.splits)

lemma resultsChan_Nil [simp]: "resultsChan sched [] = []"
  by (induction sched) simp_all

lemma sum_list_enumerate:
  "sum_list (map (\<lambda>(i, x). f i) (enumerate n xs)) = (\<Sum>i = n..<n + length xs. f i)"
proof (induction xs arbitrary: n)
  case Nil
  then show ?case by simp
next
  case (Cons x xs)
  have "(\<Sum>i = n..<Suc n + length xs. f i) = f n + (\<Sum>i = Suc n..<Suc n + length xs. f i)"
    by (rule sum.atLeast_Suc_lessThan) simp
  then show ?case using Cons [of "Suc n"] by simp
qed

lemma length_launch [simp]: "length (launch e tok repos) = length repos"
  by (simp add: launch_def)

lemma length_concat_launch:
  "length (concat (map snd (launch e tok repos))) = (\<Sum>i<length repos. submissions (scan_results e i))"
  "length (concat (map fst (launch e tok repos))) = (\<Sum>i<length repos. submissions (scan_results e i))"
proof -
  have "map (length \<circ> snd) (launch e tok repos)
      = map (\<lambda>(i, x). submissions (scan_results e i)) (enumerate 0 repos)"
    by (simp add: launch_def length_worker split_beta comp_def)
  then have "length (concat (map snd (launch e tok repos)))
      = sum_list (map (\<lambda>(i, x). submissions (scan_results e i)) (enumerate 0 repos))"
    by (simp add: length_concat)
  then show "length (concat (map snd (launch e tok repos))) = (\<Sum>i<length repos. submissions (scan_results e i))"
    by (simp add: sum_list_enumerate atLeast0LessThan)
  have "map (length \<circ> fst) (launch e tok repos)
      = map (\<lambda>(i, x). submissions (scan_results e i)) (enumerate 0 repos)"
    by (simp add: launch_def length_worker split_beta comp_def)
  then have "length (concat (map fst (launch e tok repos)))
      = sum_list (map (\<lambda>(i, x). submissions (scan_results e i)) (enumerate 0 repos))"
    by (simp add: length_concat)
  then show "length (concat (map fst (launch e tok repos))) = (\<Sum>i<length repos. submissions (scan_results e i))"
    by (simp add: sum_list_enumerate atLeast0LessThan)
qed

lemma main_counts:
  "length (concat (outcomes (main e db))) = (\<Sum>i<launched (main e db). submissions (scan_results e i))"
  "length (concat (requests (main e db))) = (\<Sum>i<launched (main e db). submissions (scan_results e i))"
  "map fst (written (main e db)) = resultsChan (arrival e) (outcomes (main e db))"
proof -
  show "length (concat (outcomes (main e db))) = (\<Sum>i<launched (main e db). submissions (scan_results e i))"
    by (cases "started e db")
       (simp_all add: main_started main_aborted aborted_def workers_of_def length_concat_launch)
  show "length (concat (requests (main e db))) = (\<Sum>i<launched (main e db). submissions (scan_results e i))"
    by (cases "started e db")
       (simp_all add: main_started main_aborted aborted_def workers_of_def length_concat_launch)
  show "map fst (written (main e db)) = resultsChan (arrival e) (outcomes (main e db))"
    by (cases "started e db")
       (simp_all add: main_started main_aborted aborted_def writer_trace received_of_def)
qed

lemma submissions_all:
  "(\<And>rows. q = Inr rows \<Longrightarrow> list_all submitted rows) \<Longrightarrow> submissions q = candidates q"
  by (cases q) (simp_all add: submissions_def candidates_def list_all_iff)

text \<open>
  Claim C1, as the code has it. In every run the workers produce exactly one result for
  each row that reaches the submission (\<open>rows.Scan\<close> and \<open>limiter.Wait\<close> returned no
  error), whatever \<open>importToSnyk\<close> returns for it; the writer receives exactly these
  results, in an interleaving of the workers' sequences, and calls \<open>writeImportResult\<close>
  once for each of them. When no row fails to be read and no wait fails, the number of
  results and of calls is the number \<open>F\<close> of rows the queries yielded.
\<close>

theorem outcomes_per_submission:
  "length (concat (outcomes (main e db))) = (\<Sum>i<launched (main e db). submissions (scan_results e i))
   \<and> map fst (written (main e db)) = resultsChan (arrival e) (outcomes (main e db))
   \<and> mset (map fst (written (main e db))) = mset (concat (outcomes (main e db)))
   \<and> length (written (main e db)) = (\<Sum>i<launched (main e db). submissions (scan_results e i))
   \<and> ((\<forall>i<launched (main e db). \<forall>rows. scan_results e i = Inr rows \<longrightarrow> list_all submitted rows)
        \<longrightarrow> length (written (main e db)) = (\<Sum>i<launched (main e db). candidates (scan_results e i)))"
proof -
  let ?r = "main e db"
  have a: "length (concat (outcomes ?r)) = (\<Sum>i<launched ?r. submissions (scan_results e i))"
    by (rule main_counts)
  have b: "map fst (written ?r) = resultsChan (arrival e) (outcomes ?r)"
    by (rule main_counts)
  have c: "mset (map fst (written ?r)) = mset (concat (outcomes ?r))"
    by (simp only: b mset_resultsChan)
  have "length (written ?r) = length (map fst (written ?r))" by simp
  also have "\<dots> = length (concat (outcomes ?r))"
    by (simp only: b length_resultsChan)
  finally have d: "length (written ?r) = (\<Sum>i<launched ?r. submissions (scan_results e i))"
    using a by simp
  have "length (written ?r) = (\<Sum>i<launched ?r. candidates (scan_results e i))"
    if "\<forall>i<launched ?r. \<forall>rows. scan_results e i = Inr rows \<longrightarrow> list_all submitted rows"
  proof -
    have "submissions (scan_results e i) = candidates (scan_results e i)" if "i < launched ?r" for i
      using \<open>\<forall>i<launched ?r. _\<close> that by (intro submissions_all) blast
    then show ?thesis using d by simp
  qed
  then show ?thesis using a b c d by blast
qed

lemmas scenario_defs = scenario_def scenario_rows_def acme_api_def db_up_def both_tokens_def main_def initDB_def
  getRepositoriesFromDB_def launch_def worker_def process_row_def importToSnyk_def
  json_Marshal_def http_NewRequest_def Header_Set_def writeImportResult_def upsert_def
  new_row_def result_key_def row_key_def do_update_def aborted_def Let_def

lemma scenario_store: "db_final (main scenario None) =
   Some [\<lparr>row_id = 1, repo_id = 1, repo_owner = ''acme'', repo_name = ''api'',
      file_path = ''go.mod'', success = True, error_message = Some [],
      imported_at = 10\<rparr>,
   \<lparr>row_id = 2, repo_id = 1, repo_owner = ''acme'', repo_name = ''api'',
      file_path = ''package.json'', success = False,
      error_message = Some (''Snyk API returned status: '' @ fmt_d 500),
      imported_at = 20\<rparr>]"
  by (simp add: scenario_defs)

lemma scenario_counts:
  "launched (main scenario None) = 1"
  "(\<Sum>i<launched (main scenario None). submissions (scan_results scenario i)) = 2"
  "(\<Sum>i<launched (main scenario None). candidates (scan_results scenario i)) = 2"
  by (simp_all add: scenario_defs submissions_def candidates_def submitted_def)

text \<open>
  Claim C10. When the table has a row with the key of the result, an accepted call of
  \<open>writeImportResult\<close> keeps the number of rows, and in every row the \<open>id\<close>, the
  \<open>repo_id\<close> and the key; the row with the key of the result has its \<open>success\<close>,
  \<open>error_message\<close> and \<open>imported_at\<close> overwritten and nothing else, even when
  \<open>result.RepoID\<close> differs from its \<open>repo_id\<close>; every other row is unchanged.
\<close>

theorem upsert_frame:
  assumes "result_key result \<in> set (map row_key table)"
  shows "\<exists>table'. writeImportResult (ExecOk serial) (Some table) result = (None, Some table')
     \<and> length table' = length table
     \<and> (\<forall>i<length table.
           row_id (table' ! i) = row_id (table ! i) \<and> repo_id (table' ! i) = repo_id (table ! i)
         \<and> row_key (table' ! i) = row_key (table ! i)
         \<and> (if row_key (table ! i) = result_key result
            then table' ! i = (table ! i)\<lparr>success := Success result,
                   error_message := Some (Error result), imported_at := ImportedAt result\<rparr>
            else table' ! i = table ! i))"
proof -
  have w: "writeImportResult (ExecOk serial) (Some table) result
      = (None, Some (map (do_update result) table))"
    using assms by (simp add: writeImportResult_def upsert_def)
  have "\<forall>i<length table.
           row_id (map (do_update result) table ! i) = row_id (table ! i)
         \<and> repo_id (map (do_update result) table ! i) = repo_id (table ! i)
         \<and> row_key (map (do_update result) table ! i) = row_key (table ! i)
         \<and> (if row_key (table ! i) = result_key result
            then map (do_update result) table ! i = (table ! i)\<lparr>success := Success result,
                   error_message := Some (Error result), imported_at := ImportedAt result\<rparr>
            else map (do_update result) table ! i = table ! i)"
    by (simp add: do_update_def row_key_def)
  then show ?thesis using w by simp
qed

text \<open>A result with \<open>RepoID = 2\<close> on a row with \<open>repo_id = 1\<close>.\<close>

theorem upsert_frame_witness:
  "writeImportResult (ExecOk 7) (Some [\<lparr>row_id = 1, repo_id = 1, repo_owner = ''acme'',
        repo_name = ''api'', file_path = ''go.mod'', success = True, error_message = Some [],
        imported_at = 10\<rparr>])
      \<lparr>RepoID = 2, Owner = ''acme'', Name = ''api'', FilePath = ''go.mod'', Success = False,
        Error = ''timeout'', ImportedAt = 30\<rparr>
    = (None, Some [\<lparr>row_id = 1, repo_id = 1, repo_owner = ''acme'',
        repo_name = ''api'', file_path = ''go.mod'', success = False,
        error_message = Some ''timeout'', imported_at = 30\<rparr>])"
proof -
  let ?row = "\<lparr>row_id = 1, repo_id = 1, repo_owner = ''acme'',
        repo_name = ''api'', file_path = ''go.mod'', success = True, error_message = Some [],
        imported_at = 10\<rparr>"
  let ?res = "\<lparr>RepoID = 2, Owner = ''acme'', Name = ''api'', FilePath = ''go.mod'', Success = False,
        Error = ''timeout'', ImportedAt = 30\<rparr>"
  have k: "result_key ?res \<in> set (map row_key [?row])"
    by (simp add: result_key_def row_key_def)
  obtain table' where t: "writeImportResult (ExecOk 7) (Some [?row]) ?res = (None, Some table')"
    "length table' = length [?row]"
    "\<forall>i<length [?row]. row_id (table' ! i) = row_id ([?row] ! i) \<and> repo_id (table' ! i) = repo_id ([?row] ! i)
         \<and> row_key (table' ! i) = row_key ([?row] ! i)
         \<and> (if row_key ([?row] ! i) = result_key ?res
            then table' ! i = ([?row] ! i)\<lparr>success := Success ?res,
                   error_message := Some (Error ?res), imported_at := ImportedAt ?res\<rparr>
            else table' ! i = [?row] ! i)"
    using upsert_frame [OF k, of 7] by blast
  have "table' ! 0 = ?row\<lparr>success := False, error_message := Some ''timeout'', imported_at := 30\<rparr>"
    using t(3) by (simp add: result_key_def row_key_def)
  moreover have "table' = [table' ! 0]"
    using t(2) by (cases table') simp_all
  ultimately show ?thesis using t(1) by simp
qed

text \<open>
  Claim C5, as the code has it. When \<open>GITHUB_TOKEN\<close> or \<open>SNYK_TOKEN\<close> is empty or
  unset, no worker is launched, no request is sent, the writer makes no call and no
  row of the store is inserted or changed: the store is the one \<open>initDB\<close> left, which
  runs before the check and creates the table when it does not exist.
\<close>

theorem missing_credentials:
  assumes "getenv e ''GITHUB_TOKEN'' = [] \<or> getenv e ''SNYK_TOKEN'' = []"
  shows "launched (main e db) = 0 \<and> requests (main e db) = [] \<and> outcomes (main e db) = []
     \<and> written (main e db) = []
     \<and> table_of (db_final (main e db)) = table_of db
     \<and> db_final (main e db) = snd (initDB (getenv e) (db_init e) db)"
proof -
  have "\<not> started e db" using assms by (auto simp: started_def)
  then have "main e db = aborted (snd (initDB (getenv e) (db_init e) db))"
    by (rule main_aborted)
  then show ?thesis by (simp add: aborted_def initDB_table)
qed

text \<open>The scenario without \<open>GITHUB_TOKEN\<close>, on an existing empty table.\<close>

theorem missing_credentials_witness:
  "getenv no_github_token ''GITHUB_TOKEN'' = []
   \<and> launched (main no_github_token (Some [])) = 0
   \<and> requests (main no_github_token (Some [])) = []
   \<and> written (main no_github_token (Some [])) = []
   \<and> table_of (db_final (main no_github_token (Some []))) = []"
proof -
  have g: "getenv no_github_token ''GITHUB_TOKEN'' = []"
    by (simp add: no_github_token_def)
  then have "getenv no_github_token ''GITHUB_TOKEN'' = [] \<or> getenv no_github_token ''SNYK_TOKEN'' = []"
    by simp
  moreover have "table_of (Some ([]::import_row list)) = []"
    by (simp add: table_of_def)
  ultimately show ?thesis
    using missing_credentials [of no_github_token "Some []"] g by (simp add: initDB_table)
qed

text \<open>
  Claim C5 as stated fails: without \<open>GITHUB_TOKEN\<close> and with no table in the store,
  the run ends with the table created.
\<close>

theorem missing_credentials_counterexample:
  "getenv no_github_token ''GITHUB_TOKEN'' = []
   \<and> db_final (main no_github_token None) = Some []"
  by (simp add: no_github_token_def scenario_defs)

text \<open>
  Claim C9. Two runs that differ only in the non-empty value of \<open>GITHUB_TOKEN\<close> are
  the same run: the same requests, the same results, the same calls of the writer and
  the same store.
\<close>

theorem github_token_presence_only:
  assumes "getenv e ''GITHUB_TOKEN'' \<noteq> []" and "g \<noteq> []"
  shows "main (e\<lparr>getenv := (getenv e)(''GITHUB_TOKEN'' := g)\<rparr>) db = main e db"
proof -
  let ?e = "e\<lparr>getenv := (getenv e)(''GITHUB_TOKEN'' := g)\<rparr>"
  have c: "connStr ((getenv e)(''GITHUB_TOKEN'' := g)) = connStr (getenv e)"
    by (simp add: connStr_def dbUser_def dbPass_def)
  have i: "initDB ((getenv e)(''GITHUB_TOKEN'' := g)) io db = initDB (getenv e) io db" for io
    using c by (simp add: initDB_def)
  have l: "launch ?e tok repos = launch e tok repos" for tok repos
    by (simp add: launch_def)
  show ?thesis
    using assms
    by (simp add: main_def i l Let_def split: prod.split option.split sum.split)
qed

text \<open>The scenario with another value of \<open>GITHUB_TOKEN\<close>.\<close>

theorem github_token_presence_only_witness:
  "getenv scenario ''GITHUB_TOKEN'' \<noteq> []
   \<and> main (scenario\<lparr>getenv := (getenv scenario)(''GITHUB_TOKEN'' := ''another'')\<rparr>) None
       = main scenario None"
proof -
  have a: "getenv scenario ''GITHUB_TOKEN'' \<noteq> []"
    by (simp add: scenario_def both_tokens_def)
  have b: "''another'' \<noteq> []" by simp
  show ?thesis using github_token_presence_only [OF a b, of None] a by simp
qed

lemma fst_initDB: "fst (initDB genv io db) = fst (initDB genv io db')"
  by (simp add: initDB_def split: option.split)

lemma initDB_twice: "snd (initDB genv io (snd (initDB genv io db))) = snd (initDB genv io db)"
  by (simp add: initDB_def split: option.split)

lemma started_any_store: "started e db = started e db'"
  using fst_initDB [of "getenv e" "db_init e" db db'] by (simp add: started_def)

lemma main_store_started:
  "started e db \<Longrightarrow>
     db_final (main e db) = Some (upserts (effective (execs e) 0 (received_of e)) (table_of db))"
proof -
  assume s: "started e db"
  then have "snd (initDB (getenv e) (db_init e) db) = Some (table_of db)"
    by (simp add: started_def initDB_started)
  then show ?thesis using s by (simp add: main_started writer_store)
qed

lemma main_store_aborted:
  "\<not> started e db \<Longrightarrow> db_final (main e db) = snd (initDB (getenv e) (db_init e) db)"
  by (simp add: main_aborted aborted_def)

lemma store_ok_main: "store_ok db \<Longrightarrow> store_ok (db_final (main e db))"
proof (cases "started e db")
  case True
  assume "store_ok db"
  then show ?thesis using True
    by (simp add: main_store_started store_ok_def table_of_def distinct_upserts del: distinct_map)
next
  case False
  assume "store_ok db"
  then show ?thesis using False
    by (simp add: main_store_aborted store_ok_def initDB_table)
qed

lemma process_row_unclock:
  "process_row repo tok (io\<lparr>now := 0\<rparr>)
     = (fst (process_row repo tok io), map untimed (snd (process_row repo tok io)))"
  by (simp add: process_row_def untimed_def split_beta Let_def split: sum.split option.split)

lemma worker_rows_unclock:
  "worker_rows repo tok (map (\<lambda>io. io\<lparr>now := 0\<rparr>) rows)
     = (fst (worker_rows repo tok rows), map untimed (snd (worker_rows repo tok rows)))"
  by (induction rows)
     (simp_all add: worker_rows_Cons process_row_unclock del: worker_rows.simps(2))

lemma worker_unclock:
  "worker repo tok (map_sum id (map (\<lambda>io. io\<lparr>now := 0\<rparr>)) q)
     = (fst (worker repo tok q), map untimed (snd (worker repo tok q)))"
  by (cases q) (simp_all add: worker_def worker_rows_unclock)

lemma launch_unclock:
  "launch (unclock e) tok repos = map (\<lambda>w. (fst w, map untimed (snd w))) (launch e tok repos)"
  by (simp add: launch_def unclock_def worker_unclock split_beta)

lemma unclock_fields:
  "getenv (unclock e) = getenv e" "db_init (unclock e) = db_init e"
  "inventory (unclock e) = inventory e" "arrival (unclock e) = arrival e"
  "execs (unclock e) = execs e"
  by (simp_all add: unclock_def)

lemma unclock_eq_fields:
  assumes "unclock e2 = unclock e"
  shows "getenv e2 = getenv e" "db_init e2 = db_init e" "inventory e2 = inventory e"
    "arrival e2 = arrival e" "execs e2 = execs e"
  using unclock_fields [of e2] unclock_fields [of e] assms by simp_all

lemma received_unclock: "received_of (unclock e) = map untimed (received_of e)"
proof -
  have "map snd (workers_of (unclock e)) = map (map untimed) (map snd (workers_of e))"
    by (simp add: workers_of_def repos_of_def unclock_fields launch_unclock comp_def)
  then have "received_of (unclock e)
      = resultsChan (arrival e) (map (map untimed) (map snd (workers_of e)))"
    by (simp only: received_of_def unclock_fields)
  then show ?thesis
    by (simp only: resultsChan_map received_of_def)
qed

lemma effective_map: "effective ex k (map f L) = map (apsnd f) (effective ex k L)"
  by (induction L arbitrary: k) (simp_all split: exec_io.split)

lemma effective_untimed:
  assumes "unclock e2 = unclock e"
  shows "map (untimed \<circ> snd) (effective (execs e2) 0 (received_of e2))
       = map (untimed \<circ> snd) (effective (execs e) 0 (received_of e))"
proof -
  have "map (untimed \<circ> snd) (effective ex 0 (received_of x))
      = map snd (effective ex 0 (received_of (unclock x)))" for ex x
    by (simp add: received_unclock effective_map comp_def)
  then show ?thesis using assms unclock_eq_fields(5) [OF assms] by simp
qed

lemma started_unclock:
  assumes "unclock e2 = unclock e"
  shows "started e2 db = started e db"
  using unclock_eq_fields [OF assms] by (simp add: started_def)

lemma rerun_untimed:
  assumes u: "unclock e2 = unclock e"
  shows "map untimed_row (table_of (db_final (main e2 (db_final (main e db)))))
       = map untimed_row (table_of (db_final (main e db)))"
proof (cases "started e db")
  case True
  let ?E1 = "effective (execs e) 0 (received_of e)"
  let ?E2 = "effective (execs e2) 0 (received_of e2)"
  have d1: "db_final (main e db) = Some (upserts ?E1 (table_of db))"
    using True by (rule main_store_started)
  have "started e2 (db_final (main e db))"
    using True started_unclock [OF u] started_any_store by blast
  then have d2: "db_final (main e2 (db_final (main e db)))
      = Some (upserts ?E2 (upserts ?E1 (table_of db)))"
    using d1 by (simp add: main_store_started table_of_def)
  show ?thesis
    using upserts_again(1) [OF effective_untimed [OF u], of "table_of db"] d1 d2
    by (simp add: table_of_def)
next
  case False
  have d1: "db_final (main e db) = snd (initDB (getenv e) (db_init e) db)"
    using False by (rule main_store_aborted)
  have "\<not> started e2 (db_final (main e db))"
    using False started_unclock [OF u] started_any_store by blast
  then have "db_final (main e2 (db_final (main e db)))
      = snd (initDB (getenv e2) (db_init e2) (db_final (main e db)))"
    by (rule main_store_aborted)
  then show ?thesis using d1 unclock_eq_fields [OF u] by (simp add: initDB_twice)
qed

lemma rerun_same: "db_final (main e (db_final (main e db))) = db_final (main e db)"
proof (cases "started e db")
  case True
  let ?E1 = "effective (execs e) 0 (received_of e)"
  have d1: "db_final (main e db) = Some (upserts ?E1 (table_of db))"
    using True by (rule main_store_started)
  have "started e (db_final (main e db))"
    using True started_any_store by blast
  then have "db_final (main e (db_final (main e db)))
      = Some (upserts ?E1 (upserts ?E1 (table_of db)))"
    using d1 by (simp add: main_store_started table_of_def)
  then show ?thesis using d1 by (simp add: upserts_same_again)
next
  case False
  have d1: "db_final (main e db) = snd (initDB (getenv e) (db_init e) db)"
    using False by (rule main_store_aborted)
  have "\<not> started e (db_final (main e db))"
    using False started_any_store by blast
  then have "db_final (main e (db_final (main e db)))
      = snd (initDB (getenv e) (db_init e) (db_final (main e db)))"
    by (rule main_store_aborted)
  then show ?thesis using d1 by (simp add: initDB_twice)
qed

lemma settle_absent:
  "row_key x \<notin> set (map (result_key \<circ> snd) E) \<Longrightarrow> settle E x = x"
proof (induction E arbitrary: x)
  case Nil
  then show ?case by simp
next
  case (Cons a E)
  obtain s res where a: "a = (s, res)" by (cases a)
  have "row_key x \<noteq> result_key res" using Cons.prems a by auto
  then have "do_update res x = x" by (rule do_update_other)
  moreover have "settle E x = x" using Cons.prems by (intro Cons.IH) simp
  ultimately show ?case using a by simp
qed

lemma settle_unique:
  "distinct (map (result_key \<circ> snd) E) \<Longrightarrow> (s, res) \<in> set E \<Longrightarrow> row_key x = result_key res
     \<Longrightarrow> settle E x = do_update res x"
proof (induction E arbitrary: x)
  case Nil
  then show ?case by simp
next
  case (Cons a E)
  obtain s' res' where a: "a = (s', res')" by (cases a)
  have d: "distinct (map (result_key \<circ> snd) E)"
    and n: "result_key res' \<notin> set (map (result_key \<circ> snd) E)"
    using Cons.prems(1) a by (simp_all add: comp_def)
  show ?case
  proof (cases "(s, res) = (s', res')")
    case True
    then have "row_key (do_update res x) \<notin> set (map (result_key \<circ> snd) E)"
      using n Cons.prems(3) by simp
    then have "settle E (do_update res x) = do_update res x" by (rule settle_absent)
    then show ?thesis using a True by simp
  next
    case False
    then have in_E: "(s, res) \<in> set E" using Cons.prems(2) a by auto
    then have "result_key res \<in> set (map (result_key \<circ> snd) E)" by force
    then have "result_key res' \<noteq> result_key res" using n by metis
    then have "do_update res' x = x" using Cons.prems(3) by (simp add: do_update_other)
    then show ?thesis using Cons.IH [OF d in_E Cons.prems(3)] a by simp
  qed
qed

lemma map_key_untimed:
  fixes E :: "(int \<times> ImportResult) list"
  shows "map (result_key \<circ> snd) E = map result_key (map (untimed \<circ> snd) E)"
  by (simp add: result_key_untimed comp_def)

lemma upserts_again_permuted:
  fixes E1 E2 :: "(int \<times> ImportResult) list"
  assumes d: "distinct (map (result_key \<circ> snd) E1)"
    and m: "mset (map (untimed \<circ> snd) E2) = mset (map (untimed \<circ> snd) E1)"
  shows "map untimed_row (upserts E2 (upserts E1 table)) = map untimed_row (upserts E1 table)"
proof -
  let ?T1 = "upserts E1 table"
  have mk: "mset (map (result_key \<circ> snd) E2) = mset (map (result_key \<circ> snd) E1)"
    using arg_cong [OF m, of "image_mset result_key"]
    by (simp only: map_key_untimed mset_map)
  then have sk: "set (map (result_key \<circ> snd) E2) = set (map (result_key \<circ> snd) E1)"
    by (rule mset_eq_setD)
  have d2: "distinct (map (result_key \<circ> snd) E2)"
    using d mk by (metis mset_eq_imp_distinct_iff)
  have "set (map (result_key \<circ> snd) E2) \<subseteq> set (map row_key ?T1)"
    using sk keys_upserts [of E1 table] by simp
  then have eq: "upserts E2 ?T1 = map (settle E2) ?T1" by (rule upserts_present)
  have "untimed_row (settle E2 x) = untimed_row x" if x: "x \<in> set ?T1" for x
  proof (cases "row_key x \<in> set (map (result_key \<circ> snd) E1)")
    case False
    then have "row_key x \<notin> set (map (result_key \<circ> snd) E2)" using sk by simp
    then show ?thesis by (simp add: settle_absent)
  next
    case True
    then obtain s1 res1 where r1: "(s1, res1) \<in> set E1" "row_key x = result_key res1"
      by auto
    have x1: "x = do_update res1 x"
      using settle_unique [OF d r1] upserts_settled [OF x] by simp
    have "untimed res1 \<in> set (map (untimed \<circ> snd) E1)" using r1(1) by force
    then have "untimed res1 \<in> set (map (untimed \<circ> snd) E2)"
      using mset_eq_setD [OF m] by simp
    then obtain s2 res2 where r2: "(s2, res2) \<in> set E2" "untimed res2 = untimed res1"
      by auto
    have "result_key res2 = result_key res1"
      using arg_cong [OF r2(2), of result_key] by (simp only: result_key_untimed)
    then have "settle E2 x = do_update res2 x"
      using settle_unique [OF d2 r2(1)] r1(2) by simp
    then have "untimed_row (settle E2 x) = untimed_row (do_update res1 x)"
      using untimed_do_update [OF r2(2), of x x] by simp
    then show ?thesis using x1 by simp
  qed
  then show ?thesis using eq by simp
qed

lemma effective_all_ok:
  "(\<And>k. \<exists>s. ex k = ExecOk s) \<Longrightarrow> map snd (effective ex k L) = L"
proof (induction L arbitrary: k)
  case Nil
  then show ?case by simp
next
  case (Cons r L)
  obtain s where "ex k = ExecOk s" using Cons.prems by blast
  then show ?case using Cons.IH [OF Cons.prems, of "Suc k"] by simp
qed

lemma workers_of_arrival: "workers_of (e\<lparr>arrival := a\<rparr>) = workers_of e"
  by (simp add: workers_of_def repos_of_def launch_def)

lemma workers_unclock:
  "map snd (workers_of (unclock e)) = map (map untimed) (map snd (workers_of e))"
  by (simp add: workers_of_def repos_of_def unclock_fields launch_unclock comp_def)

lemma mset_received: "mset (received_of e) = mset (concat (map snd (workers_of e)))"
  by (simp add: received_of_def mset_resultsChan)

lemma mset_received_untimed:
  assumes "unclock (e2\<lparr>arrival := arrival e\<rparr>) = unclock e"
  shows "mset (map untimed (received_of e2)) = mset (map untimed (received_of e))"
proof -
  have "map snd (workers_of (unclock (e2\<lparr>arrival := arrival e\<rparr>))) = map snd (workers_of (unclock e))"
    using assms by simp
  then have w: "map (map untimed) (map snd (workers_of e2)) = map (map untimed) (map snd (workers_of e))"
    by (simp only: workers_unclock workers_of_arrival)
  have "mset (map untimed (received_of x)) = mset (concat (map (map untimed) (map snd (workers_of x))))" for x
  proof -
    have "mset (map untimed (received_of x)) = image_mset untimed (mset (received_of x))"
      by simp
    also have "\<dots> = image_mset untimed (mset (concat (map snd (workers_of x))))"
      by (simp only: mset_received)
    also have "\<dots> = mset (map untimed (concat (map snd (workers_of x))))"
      by simp
    also have "\<dots> = mset (concat (map (map untimed) (map snd (workers_of x))))"
      by (simp only: map_concat)
    finally show ?thesis .
  qed
  then show ?thesis by (simp only: w)
qed

lemma started_reordered:
  assumes "unclock (e2\<lparr>arrival := arrival e\<rparr>) = unclock e"
  shows "started e2 db = started e db" "getenv e2 = getenv e" "db_init e2 = db_init e"
    "execs e2 = execs e"
proof -
  have f: "getenv (e2\<lparr>arrival := arrival e\<rparr>) = getenv e"
    "db_init (e2\<lparr>arrival := arrival e\<rparr>) = db_init e"
    "inventory (e2\<lparr>arrival := arrival e\<rparr>) = inventory e"
    "execs (e2\<lparr>arrival := arrival e\<rparr>) = execs e"
    using unclock_eq_fields [OF assms] by simp_all
  then show "getenv e2 = getenv e" "db_init e2 = db_init e" "execs e2 = execs e" by simp_all
  then show "started e2 db = started e db" using f(3) by (simp add: started_def)
qed

lemma rerun_reordered:
  assumes u: "unclock (e2\<lparr>arrival := arrival e\<rparr>) = unclock e"
    and ok: "\<And>k. \<exists>s. execs e k = ExecOk s"
    and d: "distinct (map result_key (concat (outcomes (main e db))))"
  shows "map untimed_row (table_of (db_final (main e2 (db_final (main e db)))))
       = map untimed_row (table_of (db_final (main e db)))"
proof (cases "started e db")
  case True
  let ?E1 = "effective (execs e) 0 (received_of e)"
  let ?E2 = "effective (execs e2) 0 (received_of e2)"
  have ok2: "\<And>k. \<exists>s. execs e2 k = ExecOk s" using ok started_reordered(4) [OF u] by simp
  have s1: "map snd ?E1 = received_of e" using ok by (rule effective_all_ok)
  have s2: "map snd ?E2 = received_of e2" using ok2 by (rule effective_all_ok)
  have m: "mset (map (untimed \<circ> snd) ?E2) = mset (map (untimed \<circ> snd) ?E1)"
    using mset_received_untimed [OF u] arg_cong [OF s1, of "map untimed"]
      arg_cong [OF s2, of "map untimed"]
    by simp
  have "outcomes (main e db) = map snd (workers_of e)" using True by (simp add: main_started)
  then have "distinct (map result_key (concat (map snd (workers_of e))))" using d by simp
  moreover have "mset (map result_key (received_of e)) = mset (map result_key (concat (map snd (workers_of e))))"
    by (simp add: mset_received)
  ultimately have "distinct (map result_key (received_of e))"
    by (metis mset_eq_imp_distinct_iff)
  then have dk: "distinct (map (result_key \<circ> snd) ?E1)"
    using arg_cong [OF s1, of "map result_key"] by simp
  have d1: "db_final (main e db) = Some (upserts ?E1 (table_of db))"
    using True by (rule main_store_started)
  have "started e2 (db_final (main e db))"
    using True started_reordered(1) [OF u] started_any_store by blast
  then have d2: "db_final (main e2 (db_final (main e db)))
      = Some (upserts ?E2 (upserts ?E1 (table_of db)))"
    using d1 by (simp add: main_store_started table_of_def)
  show ?thesis
    using upserts_again_permuted [OF dk m, of "table_of db"] d1 d2
    by (simp add: table_of_def)
next
  case False
  have d1: "db_final (main e db) = snd (initDB (getenv e) (db_init e) db)"
    using False by (rule main_store_aborted)
  have "\<not> started e2 (db_final (main e db))"
    using False started_reordered(1) [OF u] started_any_store by blast
  then have "db_final (main e2 (db_final (main e db)))
      = snd (initDB (getenv e2) (db_init e2) (db_final (main e db)))"
    by (rule main_store_aborted)
  then show ?thesis using d1 started_reordered(2,3) [OF u] by (simp add: initDB_twice)
qed

text \<open>
  Claim C2. In a store that satisfies the unique constraint: after two accepted calls of
  \<open>writeImportResult\<close> with results of the same key, the table has exactly one row of
  that key, and its \<open>success\<close>, \<open>error_message\<close> and \<open>imported_at\<close> are those of the
  second result. Consequently a run of \<open>main\<close> keeps the keys of the store distinct, and
  a second run on the store the first run left
  \<^item> leaves the store as it is, when its environment is the one of the first run (the
    same answers of the database, the inventory, the scan results, the API and the
    clock, the results arriving at the writer in the same order);
  \<^item> leaves the same rows but for \<open>imported_at\<close>, when it differs from the first run in
    the readings of the clock only;
  \<^item> leaves the same rows but for \<open>imported_at\<close>, when it differs from the first run in
    the readings of the clock and in the order of arrival at the writer, provided the
    database accepts every statement and no two results of a run have the same key.
\<close>

theorem idempotent_upsert:
  assumes "store_ok db"
  shows "(\<forall>table. db = Some table \<and> result_key r1 = result_key r2 \<longrightarrow>
           (\<exists>table2 row.
               snd (writeImportResult (ExecOk s2) (snd (writeImportResult (ExecOk s1) db r1)) r2)
                 = Some table2
             \<and> filter (\<lambda>r. row_key r = result_key r2) table2 = [row]
             \<and> success row = Success r2 \<and> error_message row = Some (Error r2)
             \<and> imported_at row = ImportedAt r2))
     \<and> store_ok (db_final (main e db))
     \<and> db_final (main e (db_final (main e db))) = db_final (main e db)
     \<and> (unclock e2 = unclock e \<longrightarrow>
           store_ok (db_final (main e2 (db_final (main e db))))
         \<and> map untimed_row (table_of (db_final (main e2 (db_final (main e db)))))
             = map untimed_row (table_of (db_final (main e db))))
     \<and> (unclock (e3\<lparr>arrival := arrival e\<rparr>) = unclock e
          \<and> (\<forall>k. \<exists>s. execs e k = ExecOk s)
          \<and> distinct (map result_key (concat (outcomes (main e db)))) \<longrightarrow>
           store_ok (db_final (main e3 (db_final (main e db))))
         \<and> map untimed_row (table_of (db_final (main e3 (db_final (main e db)))))
             = map untimed_row (table_of (db_final (main e db))))"
proof -
  have one: "\<exists>table2 row.
               snd (writeImportResult (ExecOk s2) (snd (writeImportResult (ExecOk s1) db r1)) r2)
                 = Some table2
             \<and> filter (\<lambda>r. row_key r = result_key r2) table2 = [row]
             \<and> success row = Success r2 \<and> error_message row = Some (Error r2)
             \<and> imported_at row = ImportedAt r2"
    if "db = Some table" for table
  proof -
    have d: "distinct (map row_key table)"
      using assms that by (simp add: store_ok_def table_of_def)
    have w: "snd (writeImportResult (ExecOk s2) (snd (writeImportResult (ExecOk s1) db r1)) r2)
        = Some (upsert s2 r2 (upsert s1 r1 table))"
      using that by (simp add: writeImportResult_def)
    show ?thesis
      using upsert_one_row [OF distinct_upsert [OF d, of s1 r1], of r2 s2] w by blast
  qed
  have ok1: "store_ok (db_final (main e db))"
    using assms by (rule store_ok_main)
  have ok2: "store_ok (db_final (main x (db_final (main e db))))" for x
    using ok1 by (rule store_ok_main)
  have re: "map untimed_row (table_of (db_final (main e3 (db_final (main e db)))))
             = map untimed_row (table_of (db_final (main e db)))"
    if "unclock (e3\<lparr>arrival := arrival e\<rparr>) = unclock e"
      "\<forall>k. \<exists>s. execs e k = ExecOk s"
      "distinct (map result_key (concat (outcomes (main e db))))"
    using that by (intro rerun_reordered) blast+
  show ?thesis
    using one ok1 ok2 rerun_same [of e db] rerun_untimed [of e2 e db] re by blast
qed

text \<open>The scenario, run again at once and run again an hour later.\<close>

theorem idempotent_upsert_witness:
  "store_ok (Some [])
   \<and> snd (writeImportResult (ExecOk 2)
          (snd (writeImportResult (ExecOk 1) (Some [])
                 \<lparr>RepoID = 1, Owner = ''acme'', Name = ''api'', FilePath = ''go.mod'',
                  Success = False, Error = ''timeout'', ImportedAt = 10\<rparr>))
          \<lparr>RepoID = 1, Owner = ''acme'', Name = ''api'', FilePath = ''go.mod'',
           Success = True, Error = [], ImportedAt = 20\<rparr>)
       = Some [\<lparr>row_id = 1, repo_id = 1, repo_owner = ''acme'', repo_name = ''api'',
                file_path = ''go.mod'', success = True, error_message = Some [],
                imported_at = 20\<rparr>]
   \<and> db_final (main scenario (db_final (main scenario (Some [])))) = db_final (main scenario (Some []))
   \<and> unclock scenario_later = unclock scenario
   \<and> map untimed_row (table_of (db_final (main scenario_later (db_final (main scenario (Some []))))))
       = map untimed_row (table_of (db_final (main scenario (Some []))))
   \<and> unclock (two_repos_later\<lparr>arrival := arrival two_repos\<rparr>) = unclock two_repos
   \<and> (\<forall>k. \<exists>s. execs two_repos k = ExecOk s)
   \<and> distinct (map result_key (concat (outcomes (main two_repos (Some [])))))
   \<and> map untimed_row (table_of (db_final (main two_repos_later (db_final (main two_repos (Some []))))))
       = map untimed_row (table_of (db_final (main two_repos (Some []))))
   \<and> length (table_of (db_final (main two_repos (Some [])))) = 4"
proof -
  let ?r1 = "\<lparr>RepoID = 1, Owner = ''acme'', Name = ''api'', FilePath = ''go.mod'',
                  Success = False, Error = ''timeout'', ImportedAt = 10\<rparr>"
  let ?r2 = "\<lparr>RepoID = 1, Owner = ''acme'', Name = ''api'', FilePath = ''go.mod'',
           Success = True, Error = [], ImportedAt = 20\<rparr>"
  have a: "store_ok (Some [])" by (simp add: store_ok_def table_of_def)
  have w: "snd (writeImportResult (ExecOk 2) (snd (writeImportResult (ExecOk 1) (Some []) ?r1)) ?r2)
       = Some [\<lparr>row_id = 1, repo_id = 1, repo_owner = ''acme'', repo_name = ''api'',
                file_path = ''go.mod'', success = True, error_message = Some [],
                imported_at = 20\<rparr>]"
    by (simp add: writeImportResult_def upsert_def new_row_def do_update_def result_key_def
        row_key_def)
  have b: "unclock scenario_later = unclock scenario"
    by (simp add: unclock_def scenario_later_def scenario_def scenario_rows_def)
  have c: "unclock (two_repos_later\<lparr>arrival := arrival two_repos\<rparr>) = unclock two_repos"
    by (simp add: unclock_def two_repos_later_def two_repos_def scenario_def scenario_rows_def)
  have ok: "\<forall>k. \<exists>s. execs two_repos k = ExecOk s"
    by (simp add: two_repos_def scenario_def)
  have d: "distinct (map result_key (concat (outcomes (main two_repos (Some [])))))"
    by (simp add: two_repos_def scenario_defs)
  have n: "length (table_of (db_final (main two_repos (Some [])))) = 4"
    by (simp add: two_repos_def scenario_defs table_of_def)
  note t = idempotent_upsert [OF a, of ?r1 ?r2 2 1 scenario scenario_later two_repos_later]
  note t2 = idempotent_upsert [OF a, of ?r1 ?r2 2 1 two_repos two_repos_later two_repos_later]
  have s: "db_final (main scenario (db_final (main scenario (Some [])))) = db_final (main scenario (Some []))"
    using t by blast
  have e: "map untimed_row (table_of (db_final (main scenario_later (db_final (main scenario (Some []))))))
       = map untimed_row (table_of (db_final (main scenario (Some []))))"
    using t b by blast
  have f: "map untimed_row (table_of (db_final (main two_repos_later (db_final (main two_repos (Some []))))))
       = map untimed_row (table_of (db_final (main two_repos (Some []))))"
    using t2 c ok d by blast
  show ?thesis using a w s b e c ok d f n by blast
qed

text \<open>The scenario: two rows, both submitted, two results, two calls of the writer.\<close>

theorem outcomes_per_submission_witness:
  "scan_results scenario 0 = Inr scenario_rows \<and> list_all submitted scenario_rows
   \<and> launched (main scenario None) = 1
   \<and> length (concat (outcomes (main scenario None))) = 2
   \<and> length (written (main scenario None)) = 2"
proof -
  have h: "\<forall>i<launched (main scenario None). \<forall>rows. scan_results scenario i = Inr rows \<longrightarrow> list_all submitted rows"
    by (simp add: scenario_def scenario_rows_def submitted_def)
  have r: "scan_results scenario 0 = Inr scenario_rows" "list_all submitted scenario_rows"
    by (simp_all add: scenario_def scenario_rows_def submitted_def)
  have c: "launched (main scenario None) = 1"
    "(\<Sum>i<launched (main scenario None). submissions (scan_results scenario i)) = 2"
    "(\<Sum>i<launched (main scenario None). candidates (scan_results scenario i)) = 2"
    by (rule scenario_counts)+
  note t = outcomes_per_submission [of scenario None]
  have "length (concat (outcomes (main scenario None)))
      = (\<Sum>i<launched (main scenario None). submissions (scan_results scenario i))"
    using t by blast
  then have o: "length (concat (outcomes (main scenario None))) = 2"
    by (simp only: c(2))
  have "length (written (main scenario None))
      = (\<Sum>i<launched (main scenario None). candidates (scan_results scenario i))"
    using t h by blast
  then have w: "length (written (main scenario None)) = 2"
    by (simp only: c(3))
  show ?thesis using r c(1) o w by blast
qed

text \<open>
  Claim C1 as stated fails: the query yields one row, \<open>rows.Scan\<close> fails on it, the loop
  continues, and the run produces no result and no call of the writer.
\<close>

theorem candidate_without_outcome:
  "(\<Sum>i<launched (main unreadable_row None). candidates (scan_results unreadable_row i)) = 1
   \<and> concat (outcomes (main unreadable_row None)) = []
   \<and> written (main unreadable_row None) = []"
  by (simp add: unreadable_row_def scenario_defs candidates_def)

lemma status_500_text:
  "''Snyk API returned status: '' @ fmt_d 500 = ''Snyk API returned status: 500''"
  "sublist ''500'' ''Snyk API returned status: 500''"
proof -
  show a: "''Snyk API returned status: '' @ fmt_d 500 = ''Snyk API returned status: 500''"
    by (simp add: fmt_d_500)
  show "sublist ''500'' ''Snyk API returned status: 500''"
    using sublist_of_suffix [of "''500''" "''Snyk API returned status: ''"] by simp
qed

text \<open>
  Claim C6, as the code has it. In the end-to-end scenario, started on a store with no
  row, whatever the file types, the readings of the clock, the values of the sequence
  and the order of arrival, the store ends with exactly two rows:
  \<open>(acme, api, go.mod)\<close> with \<open>success = true\<close> and the empty string as
  \<open>error_message\<close>, and \<open>(acme, api, package.json)\<close> with \<open>success = false\<close> and the
  \<open>error_message\<close> \<open>Snyk API returned status: 500\<close>, which contains \<open>500\<close>.
\<close>

theorem end_to_end_store:
  assumes tok: "getenv e ''GITHUB_TOKEN'' \<noteq> []" "getenv e ''SNYK_TOKEN'' \<noteq> []"
    and db: "fst (initDB (getenv e) (db_init e) db) = None" "table_of db = []"
    and inv: "inventory e = Inr [Inr \<lparr>ID = 1, Owner = ''acme'', Name = ''api'', Branch = ''main''\<rparr>]"
    and scan: "scan_results e 0 =
        Inr [\<lparr>scanned = Inr (''go.mod'', ty1), waited = None, replied = Response 201, now = t1\<rparr>,
             \<lparr>scanned = Inr (''package.json'', ty2), waited = None, replied = Response 500,
               now = t2\<rparr>]"
    and ex: "execs e 0 = ExecOk s1" "execs e 1 = ExecOk s2"
  shows "db_final (main e db) =
     Some [\<lparr>row_id = s1, repo_id = 1, repo_owner = ''acme'', repo_name = ''api'',
             file_path = ''go.mod'', success = True, error_message = Some [],
             imported_at = t1\<rparr>,
           \<lparr>row_id = s2, repo_id = 1, repo_owner = ''acme'', repo_name = ''api'',
             file_path = ''package.json'', success = False,
             error_message = Some ''Snyk API returned status: 500'', imported_at = t2\<rparr>]
     \<and> sublist ''500'' ''Snyk API returned status: 500''"
proof -
  let ?repo = "\<lparr>ID = 1, Owner = ''acme'', Name = ''api'', Branch = ''main''\<rparr>"
  let ?tok = "getenv e ''SNYK_TOKEN''"
  have st: "started e db"
    using tok db(1) inv by (simp add: started_def getRepositoriesFromDB_def)
  have repos: "repos_of e = [?repo]"
    using inv by (simp add: repos_of_def getRepositoriesFromDB_def)
  have w: "snd (worker ?repo ?tok (scan_results e 0)) =
      [\<lparr>RepoID = 1, Owner = ''acme'', Name = ''api'', FilePath = ''go.mod'', Success = True,
         Error = [], ImportedAt = t1\<rparr>,
       \<lparr>RepoID = 1, Owner = ''acme'', Name = ''api'', FilePath = ''package.json'',
         Success = False, Error = ''Snyk API returned status: 500'', ImportedAt = t2\<rparr>]"
    by (simp add: scan worker_def process_row_def importToSnyk_def json_Marshal_def
        http_NewRequest_def Let_def fmt_d_500)
  have "map snd (workers_of e) = [snd (worker ?repo ?tok (scan_results e 0))]"
    by (simp add: workers_of_def repos launch_def)
  then have "received_of e = snd (worker ?repo ?tok (scan_results e 0))"
    by (simp add: received_of_def resultsChan_single)
  then have "effective (execs e) 0 (received_of e) =
      [(s1, \<lparr>RepoID = 1, Owner = ''acme'', Name = ''api'', FilePath = ''go.mod'', Success = True,
         Error = [], ImportedAt = t1\<rparr>),
       (s2, \<lparr>RepoID = 1, Owner = ''acme'', Name = ''api'', FilePath = ''package.json'',
         Success = False, Error = ''Snyk API returned status: 500'', ImportedAt = t2\<rparr>)]"
    using ex by (simp add: w)
  then have "db_final (main e db) =
     Some [\<lparr>row_id = s1, repo_id = 1, repo_owner = ''acme'', repo_name = ''api'',
             file_path = ''go.mod'', success = True, error_message = Some [],
             imported_at = t1\<rparr>,
           \<lparr>row_id = s2, repo_id = 1, repo_owner = ''acme'', repo_name = ''api'',
             file_path = ''package.json'', success = False,
             error_message = Some ''Snyk API returned status: 500'', imported_at = t2\<rparr>]"
    using main_store_started [OF st] db(2)
    by (simp add: upsert_def new_row_def result_key_def row_key_def)
  then show ?thesis using status_500_text(2) by simp
qed

text \<open>The scenario with its concrete clock and sequence.\<close>

theorem end_to_end_store_witness:
  "db_final (main scenario None) =
     Some [\<lparr>row_id = 1, repo_id = 1, repo_owner = ''acme'', repo_name = ''api'',
             file_path = ''go.mod'', success = True, error_message = Some [],
             imported_at = 10\<rparr>,
           \<lparr>row_id = 2, repo_id = 1, repo_owner = ''acme'', repo_name = ''api'',
             file_path = ''package.json'', success = False,
             error_message = Some ''Snyk API returned status: 500'', imported_at = 20\<rparr>]"
proof -
  have "db_final (main scenario None) =
     Some [\<lparr>row_id = 1, repo_id = 1, repo_owner = ''acme'', repo_name = ''api'',
             file_path = ''go.mod'', success = True, error_message = Some [],
             imported_at = 10\<rparr>,
           \<lparr>row_id = 2, repo_id = 1, repo_owner = ''acme'', repo_name = ''api'',
             file_path = ''package.json'', success = False,
             error_message = Some ''Snyk API returned status: 500'', imported_at = 20\<rparr>]
     \<and> sublist ''500'' ''Snyk API returned status: 500''"
    by (rule end_to_end_store [where ?ty1.0 = "''gomod''" and ?ty2.0 = "''npm''"])
       (simp_all add: scenario_def scenario_rows_def both_tokens_def db_up_def initDB_def
          table_of_def acme_api_def)
  then show ?thesis by simp
qed

text \<open>
  Claim C6 as stated fails: the scenario leaves no row \<open>(acme, api, go.mod)\<close> with
  \<open>success = true\<close> whose \<open>error_message\<close> is NULL.
\<close>

theorem error_message_not_null:
  "\<not> (\<exists>r \<in> set (table_of (db_final (main scenario None))).
         row_key r = (''acme'', ''api'', ''go.mod'') \<and> success r \<and> error_message r = None)"
  by (simp add: scenario_defs table_of_def)

lemma nth_launch:
  "b < length repos \<Longrightarrow> launch e tok repos ! b = worker (repos ! b) tok (scan_results e b)"
  by (simp add: launch_def nth_enumerate_eq)

lemma keys_write:
  "set (map row_key (table_of db)) \<subseteq> set (map row_key (table_of (snd (writeImportResult io db r))))"
  using keys_upsert
  by (auto simp: writeImportResult_def table_of_def split: exec_io.split option.split)

lemma key_written:
  "fst (writeImportResult io db r) = None \<Longrightarrow>
     result_key r \<in> set (map row_key (table_of (snd (writeImportResult io db r))))"
  using keys_upsert
  by (auto simp: writeImportResult_def table_of_def split: exec_io.splits option.splits)

lemma keys_writer:
  "set (map row_key (table_of db)) \<subseteq> set (map row_key (table_of (snd (writer ex k L db))))"
proof (induction L arbitrary: k db)
  case Nil
  then show ?case by simp
next
  case (Cons r L)
  have "set (map row_key (table_of (snd (writeImportResult (ex k) db r))))
      \<subseteq> set (map row_key (table_of (snd (writer ex (Suc k) L (snd (writeImportResult (ex k) db r))))))"
    by (rule Cons.IH)
  then show ?case using keys_write [of db "ex k" r]
    by (simp add: writer_Cons del: writer.simps(2))
qed

lemma writer_persisted:
  "(r, None) \<in> set (fst (writer ex k L db)) \<Longrightarrow>
     result_key r \<in> set (map row_key (table_of (snd (writer ex k L db))))"
proof (induction L arbitrary: k db)
  case Nil
  then show ?case by simp
next
  case (Cons a L)
  let ?db = "snd (writeImportResult (ex k) db a)"
  from Cons.prems have "(r = a \<and> fst (writeImportResult (ex k) db a) = None)
      \<or> (r, None) \<in> set (fst (writer ex (Suc k) L ?db))"
    by (auto simp add: writer_Cons simp del: writer.simps(2))
  then show ?case
  proof
    assume h: "r = a \<and> fst (writeImportResult (ex k) db a) = None"
    then have "result_key r \<in> set (map row_key (table_of ?db))"
      using key_written by blast
    then have "result_key r \<in> set (map row_key (table_of (snd (writer ex (Suc k) L ?db))))"
      using keys_writer by blast
    then show ?thesis by (simp add: writer_Cons del: writer.simps(2))
  next
    assume "(r, None) \<in> set (fst (writer ex (Suc k) L ?db))"
    then have "result_key r \<in> set (map row_key (table_of (snd (writer ex (Suc k) L ?db))))"
      by (rule Cons.IH)
    then show ?thesis by (simp add: writer_Cons del: writer.simps(2))
  qed
qed

lemma main_persisted:
  "(r, None) \<in> set (written (main e db)) \<Longrightarrow>
     result_key r \<in> set (map row_key (table_of (db_final (main e db))))"
proof (cases "started e db")
  case True
  assume "(r, None) \<in> set (written (main e db))"
  then show ?thesis using True writer_persisted by (simp add: main_started)
next
  case False
  assume "(r, None) \<in> set (written (main e db))"
  then show ?thesis using False by (simp add: main_aborted aborted_def)
qed

lemma main_attempted:
  assumes "b < length (outcomes (main e db))" "r \<in> set (outcomes (main e db) ! b)"
  shows "r \<in> fst ` set (written (main e db))"
proof -
  have "r \<in> set (concat (outcomes (main e db)))"
    using assms by (auto intro: nth_mem)
  then have "r \<in># mset (concat (outcomes (main e db)))" by simp
  then have "r \<in># mset (resultsChan (arrival e) (outcomes (main e db)))"
    by (simp only: mset_resultsChan)
  then have "r \<in> set (map fst (written (main e db)))"
    by (simp only: main_counts(3) set_mset_mset)
  then show ?thesis by simp
qed

lemma main_outcomes_nth:
  assumes "b < launched (main e db)"
  shows "outcomes (main e db) ! b
      = snd (worker (repos_of e ! b) (getenv e ''SNYK_TOKEN'') (scan_results e b))"
    and "requests (main e db) ! b
      = fst (worker (repos_of e ! b) (getenv e ''SNYK_TOKEN'') (scan_results e b))"
    and "length (outcomes (main e db)) = launched (main e db)"
proof -
  have st: "started e db"
    using assms by (cases "started e db") (simp_all add: main_aborted aborted_def)
  then have b: "b < length (repos_of e)" using assms by (simp add: main_started)
  show "outcomes (main e db) ! b
      = snd (worker (repos_of e ! b) (getenv e ''SNYK_TOKEN'') (scan_results e b))"
    using st b by (simp add: main_started workers_of_def nth_launch)
  show "requests (main e db) ! b
      = fst (worker (repos_of e ! b) (getenv e ''SNYK_TOKEN'') (scan_results e b))"
    using st b by (simp add: main_started workers_of_def nth_launch)
  show "length (outcomes (main e db)) = launched (main e db)"
    using st by (simp add: main_started workers_of_def)
qed

lemma started_scan_update: "started (e\<lparr>scan_results := f\<rparr>) db = started e db"
  by (simp add: started_def)

lemma launched_scan_update: "launched (main (e\<lparr>scan_results := f\<rparr>) db) = launched (main e db)"
  by (cases "started e db")
     (simp_all add: main_started main_aborted aborted_def started_scan_update repos_of_def)

lemma process_row_outcome:
  assumes "submitted io"
  shows "\<exists>r. snd (process_row repo tok io) = [r]
     \<and> (Success r \<longleftrightarrow> replied io = Response 200 \<or> replied io = Response 201)"
proof -
  obtain filePath fileType where s: "scanned io = Inr (filePath, fileType)" "waited io = None"
    using assms by (auto simp: submitted_def split: sum.splits)
  have "snd (importToSnyk (replied io) repo filePath tok) = None
      \<longleftrightarrow> replied io = Response 200 \<or> replied io = Response 201"
    using importToSnyk_sends_one [of "replied io" repo filePath tok]
    by (cases "replied io") (auto simp: importToSnyk_def json_Marshal_def http_NewRequest_def Let_def)
  then show ?thesis
    using s by (auto simp: process_row_def split_beta Let_def split: option.splits)
qed

lemma writer_errors:
  "map snd (fst (writer ex k L (Some table))) = map (\<lambda>j. exec_err (ex j)) [k..<k + length L]"
proof (induction L arbitrary: k table)
  case Nil
  then show ?case by simp
next
  case (Cons r L)
  obtain table' where t: "snd (writeImportResult (ex k) (Some table) r) = Some table'"
    by (cases "ex k") (simp_all add: writeImportResult_def)
  have e: "fst (writeImportResult (ex k) (Some table) r) = exec_err (ex k)"
    by (cases "ex k") (simp_all add: writeImportResult_def exec_err_def)
  have "map snd (fst (writer ex (Suc k) L (Some table')))
      = map (\<lambda>j. exec_err (ex j)) [Suc k..<Suc k + length L]"
    by (rule Cons.IH)
  moreover have "[k..<k + length (r # L)] = k # [Suc k..<Suc k + length L]"
    by (subst upt_rec) simp
  ultimately show ?case using t e by (simp add: writer_Cons del: writer.simps(2) upt_Suc)
qed

lemma effective_append:
  "effective ex k (L1 @ L2) = effective ex k L1 @ effective ex (k + length L1) L2"
  by (induction L1 arbitrary: k) (simp_all split: exec_io.split)

lemma effective_member:
  "(s, r) \<in> set (effective ex k L) \<Longrightarrow> \<exists>j<length L. r = L ! j \<and> ex (k + j) = ExecOk s"
proof (induction L arbitrary: k)
  case Nil
  then show ?case by simp
next
  case (Cons a L)
  show ?case
  proof (cases "(s, r) \<in> set (effective ex (Suc k) L)")
    case True
    then obtain j where "j < length L" "r = L ! j" "ex (Suc k + j) = ExecOk s"
      using Cons.IH by blast
    then have "Suc j < length (a # L) \<and> r = (a # L) ! Suc j \<and> ex (k + Suc j) = ExecOk s"
      by simp
    then show ?thesis by blast
  next
    case False
    then have "ex k = ExecOk s \<and> r = a"
      using Cons.prems by (cases "ex k") auto
    then have "0 < length (a # L) \<and> r = (a # L) ! 0 \<and> ex (k + 0) = ExecOk s" by simp
    then show ?thesis by blast
  qed
qed

lemma upserts_last:
  assumes x: "x \<in> set (upserts (E1 @ (s, r) # E2) table)"
    and k: "row_key x = result_key r"
    and n: "result_key r \<notin> set (map (result_key \<circ> snd) E2)"
  shows "success x = Success r \<and> error_message x = Some (Error r) \<and> imported_at x = ImportedAt r"
proof -
  let ?y = "do_update r (settle E1 x)"
  have "row_key ?y \<notin> set (map (result_key \<circ> snd) E2)" using k n by simp
  then have "settle E2 ?y = ?y" by (rule settle_absent)
  then have "settle (E1 @ (s, r) # E2) x = ?y" by simp
  then have "x = ?y" using upserts_settled [OF x] by simp
  moreover have "row_key (settle E1 x) = result_key r" using k by simp
  then have "success ?y = Success r \<and> error_message ?y = Some (Error r)
      \<and> imported_at ?y = ImportedAt r"
    by (simp add: do_update_def)
  ultimately show ?thesis by simp
qed

lemma upserts_has_key:
  "\<exists>x \<in> set (upserts (E1 @ (s, r) # E2) table). row_key x = result_key r"
proof -
  have "set (map row_key (upserts (E1 @ (s, r) # E2) table))
      = set (map row_key table) \<union> set (map (result_key \<circ> snd) (E1 @ (s, r) # E2))"
    by (rule keys_upserts)
  moreover have "result_key r \<in> set (map (result_key \<circ> snd) (E1 @ (s, r) # E2))"
    by simp
  ultimately have "result_key r \<in> set (map row_key (upserts (E1 @ (s, r) # E2) table))"
    by blast
  then show ?thesis by auto
qed

lemma written_started:
  assumes "written (main e db) \<noteq> []"
  shows "started e db"
  using assms by (cases "started e db") (simp_all add: main_aborted aborted_def)

lemma main_write_accepted:
  assumes w: "written (main e db) = earlier @ (r, oe) # later"
    and ok: "execs e (length earlier) = ExecOk s"
  shows "oe = None"
    and "(\<forall>j<length later. result_key (fst (later ! j)) = result_key r \<longrightarrow>
            (\<exists>msg. execs e (Suc (length earlier + j)) = ExecError msg))
       \<Longrightarrow> \<exists>row \<in> set (table_of (db_final (main e db))).
             row_key row = result_key r \<and> success row = Success r
           \<and> error_message row = Some (Error r) \<and> imported_at row = ImportedAt r"
proof -
  have st: "started e db" using w by (intro written_started) simp
  let ?T = "table_of db"
  have init: "snd (initDB (getenv e) (db_init e) db) = Some ?T"
    using st by (simp add: started_def initDB_started)
  have wr: "written (main e db) = fst (writer (execs e) 0 (received_of e) (Some ?T))"
    using st init by (simp add: main_started)
  have rc: "received_of e = map fst earlier @ r # map fst later"
    using arg_cong [OF wr, of "map fst"] w by (simp add: writer_trace)
  have "map snd (written (main e db)) = map (\<lambda>j. exec_err (execs e j)) [0..<0 + length (received_of e)]"
    using wr by (simp only: writer_errors)
  then have "map snd (written (main e db)) ! length earlier = exec_err (execs e (length earlier))"
    using rc by (simp add: nth_append)
  then show "oe = None" using w ok by (simp add: nth_append exec_err_def)
  assume last: "\<forall>j<length later. result_key (fst (later ! j)) = result_key r \<longrightarrow>
            (\<exists>msg. execs e (Suc (length earlier + j)) = ExecError msg)"
  let ?E1 = "effective (execs e) 0 (map fst earlier)"
  let ?E2 = "effective (execs e) (Suc (length earlier)) (map fst later)"
  have eff: "effective (execs e) 0 (received_of e) = ?E1 @ (s, r) # ?E2"
    using ok by (simp add: rc effective_append)
  have fin: "db_final (main e db) = Some (upserts (?E1 @ (s, r) # ?E2) ?T)"
    using main_store_started [OF st] eff by simp
  have n: "result_key r \<notin> set (map (result_key \<circ> snd) ?E2)"
  proof
    assume "result_key r \<in> set (map (result_key \<circ> snd) ?E2)"
    then obtain s' r' where m: "(s', r') \<in> set ?E2" "result_key r' = result_key r"
      by auto
    then obtain j where j: "j < length (map fst later)" "r' = map fst later ! j"
      "execs e (Suc (length earlier) + j) = ExecOk s'"
      using effective_member by blast
    then have "result_key (fst (later ! j)) = result_key r" using m(2) by simp
    then obtain msg where "execs e (Suc (length earlier + j)) = ExecError msg"
      using last j(1) by auto
    then show False using j(3) by simp
  qed
  obtain x where x: "x \<in> set (upserts (?E1 @ (s, r) # ?E2) ?T)" "row_key x = result_key r"
    using upserts_has_key by blast
  have "success x = Success r \<and> error_message x = Some (Error r) \<and> imported_at x = ImportedAt r"
    using upserts_last [OF x n] .
  then show "\<exists>row \<in> set (table_of (db_final (main e db))).
             row_key row = result_key r \<and> success row = Success r
           \<and> error_message row = Some (Error r) \<and> imported_at row = ImportedAt r"
    using x fin by (auto simp: table_of_def)
qed

lemma main_all_persisted:
  assumes ok: "\<And>k. \<exists>s. execs e k = ExecOk s"
    and d: "distinct (map result_key (concat (outcomes (main e db))))"
    and b: "b < launched (main e db)" and r: "r \<in> set (outcomes (main e db) ! b)"
  shows "\<exists>row \<in> set (table_of (db_final (main e db))).
             row_key row = result_key r \<and> success row = Success r
           \<and> error_message row = Some (Error r) \<and> imported_at row = ImportedAt r"
proof -
  have st: "started e db"
    using b by (cases "started e db") (simp_all add: main_aborted aborted_def)
  let ?E = "effective (execs e) 0 (received_of e)"
  let ?T = "table_of db"
  have s1: "map snd ?E = received_of e" using ok by (rule effective_all_ok)
  have o: "outcomes (main e db) = map snd (workers_of e)" using st by (simp add: main_started)
  have "mset (map result_key (received_of e)) = mset (map result_key (concat (map snd (workers_of e))))"
    by (simp add: mset_received)
  then have "distinct (map result_key (received_of e))"
    using d o by (metis mset_eq_imp_distinct_iff)
  then have dk: "distinct (map (result_key \<circ> snd) ?E)"
    using arg_cong [OF s1, of "map result_key"] by simp
  have "b < length (outcomes (main e db))" using main_outcomes_nth(3) [OF b] b by simp
  then have "r \<in> set (concat (outcomes (main e db)))" using r by (auto intro: nth_mem)
  then have "r \<in># mset (concat (map snd (workers_of e)))" using o by simp
  then have "r \<in> set (received_of e)" by (simp only: mset_received [symmetric] set_mset_mset)
  then have "r \<in> set (map snd ?E)" by (simp only: s1)
  then obtain s where m: "(s, r) \<in> set ?E" by auto
  have fin: "db_final (main e db) = Some (upserts ?E ?T)" using st by (rule main_store_started)
  have "set (map row_key (upserts ?E ?T))
      = set (map row_key ?T) \<union> set (map (result_key \<circ> snd) ?E)"
    by (rule keys_upserts)
  moreover have "result_key r \<in> set (map (result_key \<circ> snd) ?E)"
    using m by force
  ultimately have "result_key r \<in> set (map row_key (upserts ?E ?T))"
    by blast
  then obtain x where x: "x \<in> set (upserts ?E ?T)" "row_key x = result_key r" by auto
  have "settle ?E x = do_update r x" using settle_unique [OF dk m x(2)] .
  then have "x = do_update r x" using upserts_settled [OF x(1)] by simp
  moreover have "success (do_update r x) = Success r \<and> error_message (do_update r x) = Some (Error r)
      \<and> imported_at (do_update r x) = ImportedAt r"
    using x(2) by (simp add: do_update_def)
  ultimately have "success x = Success r \<and> error_message x = Some (Error r)
      \<and> imported_at x = ImportedAt r" by simp
  then show ?thesis using x fin by (auto simp: table_of_def)
qed

text \<open>
  Claim C4. Within a worker, the rows after a row are processed as they would be on
  their own, whatever happened at that row; a submitted row whose request fails yields
  a result with \<open>Success = false\<close> and the loop goes on. When the query of the worker
  at position \<open>a\<close> fails, that worker sends no request and no result, and every other
  worker sends the requests and the results it sends when the query succeeds: one
  result for each of its rows that reaches the submission. Each of these results is
  passed to \<open>writeImportResult\<close>. Whenever the database accepts the statement of a
  call, the call returns no error, and the store at the end of the run has a row with
  the key of the result that carries its \<open>success\<close>, \<open>error_message\<close> and
  \<open>imported_at\<close>, unless a later accepted statement of the run has the same key. So
  when the database accepts every statement and no two results of the run have the
  same key, every result of every other worker is in the store at the end.
\<close>

theorem failure_isolation:
  "worker_rows repo tok (pre @ io # post)
     = (fst (worker_rows repo tok pre) @ fst (process_row repo tok io) @ fst (worker_rows repo tok post),
        snd (worker_rows repo tok pre) @ snd (process_row repo tok io) @ snd (worker_rows repo tok post))
   \<and> (submitted io \<longrightarrow>
        (\<exists>r. snd (process_row repo tok io) = [r]
           \<and> (Success r \<longleftrightarrow> replied io = Response 200 \<or> replied io = Response 201)))
   \<and> (a < launched (main (fail_query a err e) db) \<longrightarrow>
         outcomes (main (fail_query a err e) db) ! a = []
       \<and> requests (main (fail_query a err e) db) ! a = [])
   \<and> (b < launched (main (fail_query a err e) db) \<and> b \<noteq> a \<longrightarrow>
         outcomes (main (fail_query a err e) db) ! b = outcomes (main e db) ! b
       \<and> requests (main (fail_query a err e) db) ! b = requests (main e db) ! b
       \<and> (\<forall>rows. scan_results e b = Inr rows \<longrightarrow>
             length (outcomes (main (fail_query a err e) db) ! b) = length (filter submitted rows))
       \<and> (\<forall>r \<in> set (outcomes (main (fail_query a err e) db) ! b).
             \<exists>x \<in> set (written (main (fail_query a err e) db)). fst x = r))
   \<and> (\<forall>r. (r, None) \<in> set (written (main (fail_query a err e) db)) \<longrightarrow>
         result_key r \<in> set (map row_key (table_of (db_final (main (fail_query a err e) db)))))
   \<and> (\<forall>earlier r oe later s.
         written (main (fail_query a err e) db) = earlier @ (r, oe) # later
         \<and> execs e (length earlier) = ExecOk s \<longrightarrow>
           oe = None
         \<and> ((\<forall>j<length later. result_key (fst (later ! j)) = result_key r \<longrightarrow>
                (\<exists>msg. execs e (Suc (length earlier + j)) = ExecError msg)) \<longrightarrow>
              (\<exists>row \<in> set (table_of (db_final (main (fail_query a err e) db))).
                 row_key row = result_key r \<and> success row = Success r
               \<and> error_message row = Some (Error r) \<and> imported_at row = ImportedAt r)))
   \<and> ((\<forall>k. \<exists>s. execs e k = ExecOk s)
        \<and> distinct (map result_key (concat (outcomes (main (fail_query a err e) db))))
        \<and> b < launched (main (fail_query a err e) db) \<and> b \<noteq> a \<longrightarrow>
          (\<forall>r \<in> set (outcomes (main e db) ! b).
             \<exists>row \<in> set (table_of (db_final (main (fail_query a err e) db))).
                 row_key row = result_key r \<and> success row = Success r
               \<and> error_message row = Some (Error r) \<and> imported_at row = ImportedAt r))"
proof -
  let ?e = "fail_query a err e"
  have f: "getenv ?e = getenv e" "repos_of ?e = repos_of e" "scan_results ?e a = Inl err"
    "\<And>i. i \<noteq> a \<Longrightarrow> scan_results ?e i = scan_results e i" "execs ?e = execs e"
    by (simp_all add: fail_query_def repos_of_def)
  have l: "launched (main ?e db) = launched (main e db)"
    by (simp add: fail_query_def launched_scan_update)
  have p1: "worker_rows repo tok (pre @ io # post)
     = (fst (worker_rows repo tok pre) @ fst (process_row repo tok io) @ fst (worker_rows repo tok post),
        snd (worker_rows repo tok pre) @ snd (process_row repo tok io) @ snd (worker_rows repo tok post))"
    by (simp add: worker_rows_append worker_rows_Cons del: worker_rows.simps(2))
  have p2: "submitted io \<longrightarrow>
        (\<exists>r. snd (process_row repo tok io) = [r]
           \<and> (Success r \<longleftrightarrow> replied io = Response 200 \<or> replied io = Response 201))"
    using process_row_outcome by blast
  have p3: "outcomes (main ?e db) ! a = [] \<and> requests (main ?e db) ! a = []"
    if "a < launched (main ?e db)"
    using main_outcomes_nth(1,2) [OF that] f(3) by (simp add: worker_def)
  have o: "outcomes (main ?e db) ! b = outcomes (main e db) ! b"
    if b: "b < launched (main ?e db)" "b \<noteq> a"
  proof -
    have b': "b < launched (main e db)" using b(1) l by simp
    show ?thesis
      using main_outcomes_nth(1) [OF b(1)] main_outcomes_nth(1) [OF b'] f b(2) by simp
  qed
  have p4: "outcomes (main ?e db) ! b = outcomes (main e db) ! b
       \<and> requests (main ?e db) ! b = requests (main e db) ! b
       \<and> (\<forall>rows. scan_results e b = Inr rows \<longrightarrow>
             length (outcomes (main ?e db) ! b) = length (filter submitted rows))
       \<and> (\<forall>r \<in> set (outcomes (main ?e db) ! b). \<exists>x \<in> set (written (main ?e db)). fst x = r)"
    if b: "b < launched (main ?e db)" "b \<noteq> a"
  proof -
    have b': "b < launched (main e db)" using b(1) l by simp
    have r: "requests (main ?e db) ! b = requests (main e db) ! b"
      using main_outcomes_nth(2) [OF b(1)] main_outcomes_nth(2) [OF b'] f b(2) by simp
    have n: "length (outcomes (main ?e db) ! b) = length (filter submitted rows)"
      if "scan_results e b = Inr rows" for rows
      using main_outcomes_nth(1) [OF b'] o [OF b] that by (simp add: worker_def length_worker_rows)
    have "b < length (outcomes (main ?e db))"
      using main_outcomes_nth(3) [OF b(1)] b(1) by simp
    then have w: "\<forall>r \<in> set (outcomes (main ?e db) ! b). \<exists>x \<in> set (written (main ?e db)). fst x = r"
      using main_attempted by blast
    show ?thesis using o [OF b] r n w by blast
  qed
  have p5: "\<forall>r. (r, None) \<in> set (written (main ?e db)) \<longrightarrow>
         result_key r \<in> set (map row_key (table_of (db_final (main ?e db))))"
    using main_persisted by blast
  have p6: "oe = None
         \<and> ((\<forall>j<length later. result_key (fst (later ! j)) = result_key r \<longrightarrow>
                (\<exists>msg. execs e (Suc (length earlier + j)) = ExecError msg)) \<longrightarrow>
              (\<exists>row \<in> set (table_of (db_final (main ?e db))).
                 row_key row = result_key r \<and> success row = Success r
               \<and> error_message row = Some (Error r) \<and> imported_at row = ImportedAt r))"
    if w: "written (main ?e db) = earlier @ (r, oe) # later"
      and ok: "execs e (length earlier) = ExecOk s" for earlier r oe later s
  proof -
    have ok': "execs ?e (length earlier) = ExecOk s" using ok f(5) by simp
    show ?thesis
      using main_write_accepted(1) [OF w ok'] main_write_accepted(2) [OF w ok']
      by (simp only: f(5)) blast
  qed
  have p7: "\<exists>row \<in> set (table_of (db_final (main ?e db))).
                 row_key row = result_key r \<and> success row = Success r
               \<and> error_message row = Some (Error r) \<and> imported_at row = ImportedAt r"
    if ok: "\<forall>k. \<exists>s. execs e k = ExecOk s"
      and d: "distinct (map result_key (concat (outcomes (main ?e db))))"
      and b: "b < launched (main ?e db)" "b \<noteq> a"
      and r: "r \<in> set (outcomes (main e db) ! b)" for r
  proof -
    have "\<And>k. \<exists>s. execs ?e k = ExecOk s" using ok f(5) by simp
    moreover have "r \<in> set (outcomes (main ?e db) ! b)" using r o [OF b] by simp
    ultimately show ?thesis using d b(1) by (intro main_all_persisted)
  qed
  show ?thesis
    apply (intro conjI)
    subgoal by (rule p1)
    subgoal by (rule p2)
    subgoal using p3 by blast
    subgoal using p4 by blast
    subgoal by (rule p5)
    subgoal using p6 by blast
    subgoal using p7 by blast
    done
qed

text \<open>
  Two repositories, on a store that has an old row for \<open>package.json\<close>; the first query
  fails, the second worker produces its two results, the writer is called with both,
  and the store ends with the old row overwritten and a new row for \<open>go.mod\<close>.
\<close>

theorem failure_isolation_witness:
  "launched (main (fail_query 0 ''connection reset'' query_fails) stale_store) = 2
   \<and> outcomes (main (fail_query 0 ''connection reset'' query_fails) stale_store) ! 0 = []
   \<and> scan_results query_fails 1 = Inr scenario_rows
   \<and> length (outcomes (main (fail_query 0 ''connection reset'' query_fails) stale_store) ! 1) = 2
   \<and> outcomes (main (fail_query 0 ''connection reset'' query_fails) stale_store) ! 1
       = outcomes (main query_fails stale_store) ! 1
   \<and> written (main (fail_query 0 ''connection reset'' query_fails) stale_store)
       = [(\<lparr>RepoID = 1, Owner = ''acme'', Name = ''api'', FilePath = ''go.mod'', Success = True,
             Error = [], ImportedAt = 10\<rparr>, None),
          (\<lparr>RepoID = 1, Owner = ''acme'', Name = ''api'', FilePath = ''package.json'',
             Success = False, Error = ''Snyk API returned status: 500'', ImportedAt = 20\<rparr>, None)]
   \<and> db_final (main (fail_query 0 ''connection reset'' query_fails) stale_store)
       = Some [\<lparr>row_id = 40, repo_id = 1, repo_owner = ''acme'', repo_name = ''api'',
                 file_path = ''package.json'', success = False,
                 error_message = Some ''Snyk API returned status: 500'', imported_at = 20\<rparr>,
               \<lparr>row_id = 1, repo_id = 1, repo_owner = ''acme'', repo_name = ''api'',
                 file_path = ''go.mod'', success = True, error_message = Some [],
                 imported_at = 10\<rparr>]
   \<and> (\<exists>row \<in> set (table_of (db_final (main (fail_query 0 ''connection reset'' query_fails) stale_store))).
         row_key row = (''acme'', ''api'', ''package.json'') \<and> success row = False
       \<and> error_message row = Some ''Snyk API returned status: 500'' \<and> imported_at row = 20)"
proof -
  let ?e = "fail_query 0 ''connection reset'' query_fails"
  let ?r = "main ?e stale_store"
  let ?r1 = "\<lparr>RepoID = 1, Owner = ''acme'', Name = ''api'', FilePath = ''go.mod'', Success = True,
             Error = [], ImportedAt = 10\<rparr>"
  let ?r2 = "\<lparr>RepoID = 1, Owner = ''acme'', Name = ''api'', FilePath = ''package.json'',
             Success = False, Error = ''Snyk API returned status: 500'', ImportedAt = 20\<rparr>"
  have l: "launched ?r = 2"
    by (simp add: fail_query_def query_fails_def stale_store_def scenario_defs)
  have s: "scan_results query_fails 1 = Inr scenario_rows"
    by (simp add: query_fails_def)
  have n: "length (filter submitted scenario_rows) = 2"
    by (simp add: scenario_rows_def submitted_def)
  have w: "written ?r = [(?r1, None), (?r2, None)]"
    by (simp add: fail_query_def query_fails_def stale_store_def scenario_defs fmt_d_500)
  have d: "db_final ?r
       = Some [\<lparr>row_id = 40, repo_id = 1, repo_owner = ''acme'', repo_name = ''api'',
                 file_path = ''package.json'', success = False,
                 error_message = Some ''Snyk API returned status: 500'', imported_at = 20\<rparr>,
               \<lparr>row_id = 1, repo_id = 1, repo_owner = ''acme'', repo_name = ''api'',
                 file_path = ''go.mod'', success = True, error_message = Some [],
                 imported_at = 10\<rparr>]"
    by (simp add: fail_query_def query_fails_def stale_store_def scenario_defs fmt_d_500)
  have lt: "0 < launched ?r" "1 < launched ?r \<and> (1::nat) \<noteq> 0"
    using l by simp_all
  note t = failure_isolation [where repo = acme_api and tok = "[]" and pre = "[]"
      and io = "hd scenario_rows" and post = "[]" and a = 0 and err = "''connection reset''"
      and e = query_fails and db = stale_store and b = 1]
  have a: "outcomes ?r ! 0 = []" using t lt(1) by blast
  have b: "outcomes ?r ! 1 = outcomes (main query_fails stale_store) ! 1" using t lt(2) by blast
  have "length (outcomes ?r ! 1) = length (filter submitted scenario_rows)"
    using t lt(2) s by blast
  then have c: "length (outcomes ?r ! 1) = 2" by (simp only: n)
  have q: "\<exists>row \<in> set (table_of (db_final ?r)).
                 row_key row = result_key r \<and> success row = Success r
               \<and> error_message row = Some (Error r) \<and> imported_at row = ImportedAt r"
    if "written ?r = earlier @ (r, oe) # later" "execs query_fails (length earlier) = ExecOk s"
      "\<forall>j<length later. result_key (fst (later ! j)) = result_key r \<longrightarrow>
                (\<exists>msg. execs query_fails (Suc (length earlier + j)) = ExecError msg)"
    for earlier r oe later s
    using t that by blast
  have "\<exists>row \<in> set (table_of (db_final ?r)).
                 row_key row = result_key ?r2 \<and> success row = Success ?r2
               \<and> error_message row = Some (Error ?r2) \<and> imported_at row = ImportedAt ?r2"
  proof (rule q [of "[(?r1, None)]" _ None "[]" 2])
    show "written ?r = [(?r1, None)] @ (?r2, None) # []" using w by simp
    show "execs query_fails (length [(?r1, None :: err option)]) = ExecOk 2"
      by (simp add: query_fails_def scenario_def)
    show "\<forall>j<length ([] :: (ImportResult \<times> err option) list).
            result_key (fst ([] ! j)) = result_key ?r2 \<longrightarrow>
            (\<exists>msg. execs query_fails (Suc (length [(?r1, None :: err option)] + j)) = ExecError msg)"
      by simp
  qed
  then have p: "\<exists>row \<in> set (table_of (db_final ?r)).
         row_key row = (''acme'', ''api'', ''package.json'') \<and> success row = False
       \<and> error_message row = Some ''Snyk API returned status: 500'' \<and> imported_at row = 20"
    by (simp add: result_key_def)
  show ?thesis using l s a b c w d p by blast
qed

section \<open>Properties of the synchronisation\<close>

lemma drain_append:
  "drain (sched @ sched') qs
     = (fst (drain sched qs) @ fst (drain sched' (snd (drain sched qs))),
        snd (drain sched' (snd (drain sched qs))))"
proof (induction sched qs rule: drain.induct)
  case (1 qs)
  then show ?case by simp
next
  case (2 i sched qs)
  show ?case
  proof (cases "i < length qs")
    case False
    then show ?thesis using 2 by simp
  next
    case True
    show ?thesis
    proof (cases "qs ! i")
      case Nil
      then show ?thesis using 2 True by simp
    next
      case (Cons x xs)
      then show ?thesis using 2(2) [OF True Cons] True by simp
    qed
  qed
qed

lemma length_drain [simp]: "length (snd (drain sched qs)) = length qs"
proof (induction sched qs rule: drain.induct)
  case (1 qs)
  then show ?case by simp
next
  case (2 i sched qs)
  show ?case
  proof (cases "i < length qs")
    case False
    then show ?thesis using 2 by simp
  next
    case True
    show ?thesis
    proof (cases "qs ! i")
      case Nil
      then show ?thesis using 2 True by simp
    next
      case (Cons x xs)
      then show ?thesis using 2(2) [OF True Cons] True by simp
    qed
  qed
qed

lemma resultsChan_drain:
  "resultsChan sched qs = fst (drain sched qs) @ concat (snd (drain sched qs))"
proof (induction sched qs rule: drain.induct)
  case (1 qs)
  then show ?case by simp
next
  case (2 i sched qs)
  show ?case
  proof (cases "i < length qs")
    case False
    then show ?thesis using 2 by simp
  next
    case True
    show ?thesis
    proof (cases "qs ! i")
      case Nil
      then show ?thesis using 2 True by simp
    next
      case (Cons x xs)
      then show ?thesis using 2(2) [OF True Cons] True by simp
    qed
  qed
qed

lemma drain_send:
  assumes "drain sched qs = (out, ps)" "i < length ps" "ps ! i = x # xs"
  shows "drain (sched @ [i]) qs = (out @ [x], ps[i := xs])"
  using assms by (simp add: drain_append)

lemma all_finished_nth: "list_all id bs \<Longrightarrow> i < length bs \<Longrightarrow> bs ! i"
  by (simp add: list_all_length)

lemma all_finished_update: "list_all id bs \<Longrightarrow> list_all id (bs[i := True])"
proof -
  assume "list_all id bs"
  then have "\<forall>x\<in>set bs. x" by (simp add: list_all_iff)
  moreover have "set (bs[i := True]) \<subseteq> insert True (set bs)"
    by (rule set_update_subset_insert)
  ultimately have "\<forall>x\<in>set (bs[i := True]). x" by blast
  then show ?thesis by (simp add: list_all_iff)
qed

lemma consistentD:
  assumes "consistent qs s"
  shows "length (pending s) = length qs" "length (finished s) = length qs"
    "\<exists>sched. drain sched qs = (consumed s @ chan s, pending s)"
    "\<And>i. i < length qs \<Longrightarrow> finished s ! i \<Longrightarrow> pending s ! i = []"
    "coord s \<noteq> WaitWorkers \<Longrightarrow> list_all id (finished s)"
    "closed s \<longleftrightarrow> coord s = WaitWriter \<or> coord s = Returned"
    "writer_done s \<Longrightarrow> closed s \<and> chan s = []"
    "coord s = Returned \<Longrightarrow> writer_done s"
    "\<not> panicked s"
    "length (chan s) \<le> chan_capacity"
  using assms unfolding consistent_def by blast+

lemma consistentI:
  assumes "length (pending s) = length qs" "length (finished s) = length qs"
    "\<exists>sched. drain sched qs = (consumed s @ chan s, pending s)"
    "\<And>i. i < length qs \<Longrightarrow> finished s ! i \<Longrightarrow> pending s ! i = []"
    "coord s \<noteq> WaitWorkers \<Longrightarrow> list_all id (finished s)"
    "closed s \<longleftrightarrow> coord s = WaitWriter \<or> coord s = Returned"
    "writer_done s \<Longrightarrow> closed s \<and> chan s = []"
    "coord s = Returned \<Longrightarrow> writer_done s"
    "\<not> panicked s"
    "length (chan s) \<le> chan_capacity"
  shows "consistent qs s"
  using assms unfolding consistent_def by blast

lemma closed_no_pending:
  assumes "consistent qs s" "closed s" "i < length (pending s)"
  shows "pending s ! i = []"
proof -
  have "coord s \<noteq> WaitWorkers" using assms(1,2) by (auto simp: consistent_def)
  then have "list_all id (finished s)" using assms(1) by (simp add: consistent_def)
  then have "finished s ! i" using assms(1,3) by (simp add: consistent_def all_finished_nth)
  then show ?thesis using assms(1,3) by (simp add: consistent_def)
qed

lemma consistent_Send:
  assumes c: "consistent qs s" and f: "fire (Send i) s = Some s'"
  shows "consistent qs s'"
proof -
  from f have i: "i < length (pending s)" by (simp split: if_splits)
  from f i obtain x xs where p: "pending s ! i = x # xs"
    by (cases "pending s ! i") simp_all
  have nc: "\<not> closed s" using closed_no_pending [OF c _ i] p by auto
  then have nw: "\<not> writer_done s" using c by (auto simp: consistent_def)
  from f i p nc have cap: "length (chan s) < chan_capacity"
    and s': "s' = s\<lparr>pending := (pending s)[i := xs], chan := chan s @ [x]\<rparr>"
    by (simp_all split: if_splits)
  obtain sched where d: "drain sched qs = (consumed s @ chan s, pending s)"
    using c by (auto simp: consistent_def)
  have d': "drain (sched @ [i]) qs = (consumed s @ chan s @ [x], (pending s)[i := xs])"
    using drain_send [OF d i p] by simp
  have nf: "\<not> finished s ! i" using consistentD(1,4) [OF c] i p by auto
  have fin: "(pending s)[i := xs] ! j = []" if "j < length qs" "finished s ! j" for j
  proof -
    have "j \<noteq> i" using that(2) nf by auto
    then show ?thesis using consistentD(4) [OF c that] by simp
  qed
  show ?thesis
  proof (rule consistentI)
    show "length (pending s') = length qs" using s' consistentD(1) [OF c] by simp
    show "length (finished s') = length qs" using s' consistentD(2) [OF c] by simp
    show "\<exists>sched. drain sched qs = (consumed s' @ chan s', pending s')"
      using d' s' by auto
    show "pending s' ! j = []" if "j < length qs" "finished s' ! j" for j
      using fin [of j] that s' by simp
    show "list_all id (finished s')" if "coord s' \<noteq> WaitWorkers"
      using consistentD(5) [OF c] that s' by simp
    show "closed s' \<longleftrightarrow> coord s' = WaitWriter \<or> coord s' = Returned"
      using consistentD(6) [OF c] s' by simp
    show "closed s' \<and> chan s' = []" if "writer_done s'"
      using that nw s' by simp
    show "writer_done s'" if "coord s' = Returned"
      using consistentD(8) [OF c] that s' by simp
    show "\<not> panicked s'" using consistentD(9) [OF c] s' by simp
    show "length (chan s') \<le> chan_capacity" using cap s' by simp
  qed
qed

lemma consistent_WorkerDone:
  assumes c: "consistent qs s" and f: "fire (WorkerDone i) s = Some s'"
  shows "consistent qs s'"
proof -
  from f have i: "i < length (pending s)" "pending s ! i = []" "\<not> finished s ! i"
    and s': "s' = s\<lparr>finished := (finished s)[i := True]\<rparr>"
    by (simp_all split: if_splits)
  have fin: "pending s ! j = []" if "j < length qs" "(finished s)[i := True] ! j" for j
  proof (cases "j = i")
    case True
    then show ?thesis using i(2) by simp
  next
    case False
    then show ?thesis using consistentD(4) [OF c that(1)] that(2) by simp
  qed
  show ?thesis
  proof (rule consistentI)
    show "length (pending s') = length qs" using s' consistentD(1) [OF c] by simp
    show "length (finished s') = length qs" using s' consistentD(2) [OF c] by simp
    show "\<exists>sched. drain sched qs = (consumed s' @ chan s', pending s')"
      using consistentD(3) [OF c] s' by simp
    show "pending s' ! j = []" if "j < length qs" "finished s' ! j" for j
      using fin [of j] that s' by simp
    show "list_all id (finished s')" if "coord s' \<noteq> WaitWorkers"
      using consistentD(5) [OF c] that s' by (simp add: all_finished_update)
    show "closed s' \<longleftrightarrow> coord s' = WaitWriter \<or> coord s' = Returned"
      using consistentD(6) [OF c] s' by simp
    show "closed s' \<and> chan s' = []" if "writer_done s'"
      using consistentD(7) [OF c] that s' by simp
    show "writer_done s'" if "coord s' = Returned"
      using consistentD(8) [OF c] that s' by simp
    show "\<not> panicked s'" using consistentD(9) [OF c] s' by simp
    show "length (chan s') \<le> chan_capacity" using consistentD(10) [OF c] s' by simp
  qed
qed

lemma consistent_Receive:
  assumes c: "consistent qs s" and f: "fire Receive s = Some s'"
  shows "consistent qs s'"
proof -
  from f obtain x rest where ch: "chan s = x # rest" and nw: "\<not> writer_done s"
    and s': "s' = s\<lparr>chan := rest, consumed := consumed s @ [x]\<rparr>"
    by (cases "chan s") (simp_all split: if_splits)
  show ?thesis
  proof (rule consistentI)
    show "length (pending s') = length qs" using s' consistentD(1) [OF c] by simp
    show "length (finished s') = length qs" using s' consistentD(2) [OF c] by simp
    show "\<exists>sched. drain sched qs = (consumed s' @ chan s', pending s')"
      using consistentD(3) [OF c] s' ch by simp
    show "pending s' ! j = []" if "j < length qs" "finished s' ! j" for j
      using consistentD(4) [OF c that(1)] that(2) s' by simp
    show "list_all id (finished s')" if "coord s' \<noteq> WaitWorkers"
      using consistentD(5) [OF c] that s' by simp
    show "closed s' \<longleftrightarrow> coord s' = WaitWriter \<or> coord s' = Returned"
      using consistentD(6) [OF c] s' by simp
    show "closed s' \<and> chan s' = []" if "writer_done s'"
      using that nw s' by simp
    show "writer_done s'" if "coord s' = Returned"
      using consistentD(8) [OF c] that s' by simp
    show "\<not> panicked s'" using consistentD(9) [OF c] s' by simp
    show "length (chan s') \<le> chan_capacity" using consistentD(10) [OF c] s' ch by simp
  qed
qed

lemma consistent_others:
  assumes c: "consistent qs s" and f: "fire ev s = Some s'"
    and ev: "ev = WriterExit \<or> ev = WorkersJoined \<or> ev = Close \<or> ev = WriterJoined"
  shows "consistent qs s'"
  using ev
proof (elim disjE)
  assume "ev = WriterExit"
  then show ?thesis using c f unfolding consistent_def by (auto split: if_splits)
next
  assume "ev = WorkersJoined"
  then show ?thesis using c f unfolding consistent_def by (auto split: if_splits)
next
  assume "ev = Close"
  then show ?thesis using c f unfolding consistent_def by (auto split: if_splits)
next
  assume "ev = WriterJoined"
  then show ?thesis using c f unfolding consistent_def by (auto split: if_splits)
qed

lemma consistent_step:
  assumes "consistent qs s" "step ev s = Some s'"
  shows "consistent qs s'"
proof -
  have f: "fire ev s = Some s'" using assms(2) by (simp add: step_def split: if_splits)
  show ?thesis
  proof (cases ev)
    case (Send i)
    then show ?thesis using consistent_Send assms(1) f by blast
  next
    case (WorkerDone i)
    then show ?thesis using consistent_WorkerDone assms(1) f by blast
  next
    case Receive
    then show ?thesis using consistent_Receive assms(1) f by blast
  next
    case WriterExit
    then show ?thesis using consistent_others [OF assms(1) f] by blast
  next
    case WorkersJoined
    then show ?thesis using consistent_others [OF assms(1) f] by blast
  next
    case Close
    then show ?thesis using consistent_others [OF assms(1) f] by blast
  next
    case WriterJoined
    then show ?thesis using consistent_others [OF assms(1) f] by blast
  qed
qed

lemma consistent_init: "consistent qs (init qs)"
proof -
  have "drain [] qs = (consumed (init qs) @ chan (init qs), pending (init qs))"
    by (simp add: init_def)
  then have "\<exists>sched. drain sched qs = (consumed (init qs) @ chan (init qs), pending (init qs))"
    by blast
  then show ?thesis
    unfolding consistent_def by (simp add: init_def)
qed

lemma consistent_run:
  "consistent qs s \<Longrightarrow> run_events evs s = Some s' \<Longrightarrow> consistent qs s'"
proof (induction evs arbitrary: s)
  case Nil
  then show ?case by simp
next
  case (Cons ev evs)
  from Cons.prems(2) obtain s1 where s1: "step ev s = Some s1" "run_events evs s1 = Some s'"
    by (cases "step ev s") simp_all
  show ?case using Cons.IH [OF consistent_step [OF Cons.prems(1) s1(1)] s1(2)] .
qed

lemma length_concat_update:
  assumes "i < length qs" "qs ! i = x # xs"
  shows "length (concat qs) = Suc (length (concat (qs[i := xs])))"
proof -
  have split: "qs = take i qs @ (x # xs) # drop (Suc i) qs"
    using assms by (metis id_take_nth_drop)
  have upd: "qs[i := xs] = take i qs @ xs # drop (Suc i) qs"
    using assms(1) by (simp add: upd_conv_take_nth_drop)
  have "length (concat qs) = length (concat (take i qs)) + Suc (length xs) + length (concat (drop (Suc i) qs))"
    by (subst split) simp
  moreover have "length (concat (qs[i := xs])) = length (concat (take i qs)) + length xs + length (concat (drop (Suc i) qs))"
    by (subst upd) simp
  ultimately show ?thesis by simp
qed

lemma unfinished_update:
  "i < length bs \<Longrightarrow> \<not> bs ! i \<Longrightarrow> length (filter Not bs) = Suc (length (filter Not (bs[i := True])))"
proof (induction bs arbitrary: i)
  case Nil
  then show ?case by simp
next
  case (Cons b bs)
  then show ?case by (cases i) simp_all
qed

lemma work_left_step:
  assumes c: "consistent qs s" and st: "step ev s = Some s'"
  shows "work_left s' < work_left s"
proof -
  have f: "fire ev s = Some s'" using st by (simp add: step_def split: if_splits)
  show ?thesis
  proof (cases ev)
    case (Send i)
    from f Send have i: "i < length (pending s)" by (simp split: if_splits)
    from f Send i obtain x xs where p: "pending s ! i = x # xs"
      by (cases "pending s ! i") simp_all
    have nc: "\<not> closed s" using closed_no_pending [OF c _ i] p by auto
    from f Send i p nc have s': "s' = s\<lparr>pending := (pending s)[i := xs], chan := chan s @ [x]\<rparr>"
      by (simp split: if_splits)
    show ?thesis using length_concat_update [OF i p] s' by (simp add: work_left_def)
  next
    case (WorkerDone i)
    from f WorkerDone have i: "i < length (pending s)" "\<not> finished s ! i"
      and s': "s' = s\<lparr>finished := (finished s)[i := True]\<rparr>"
      by (simp_all split: if_splits)
    have "i < length (finished s)" using i(1) consistentD(1,2) [OF c] by simp
    then show ?thesis using unfinished_update [OF _ i(2)] s' by (simp add: work_left_def)
  next
    case Receive
    from f Receive obtain x rest where "chan s = x # rest"
      "s' = s\<lparr>chan := rest, consumed := consumed s @ [x]\<rparr>"
      by (cases "chan s") (simp_all split: if_splits)
    then show ?thesis by (simp add: work_left_def)
  next
    case WriterExit
    then show ?thesis using f by (auto simp: work_left_def split: if_splits)
  next
    case WorkersJoined
    then show ?thesis using f by (auto simp: work_left_def phase_rank_def split: if_splits)
  next
    case Close
    then show ?thesis using f by (auto simp: work_left_def phase_rank_def split: if_splits)
  next
    case WriterJoined
    then show ?thesis using f by (auto simp: work_left_def phase_rank_def split: if_splits)
  qed
qed

lemma progress:
  assumes c: "consistent qs s" and nr: "coord s \<noteq> Returned"
  shows "\<exists>ev s'. step ev s = Some s'"
proof -
  have live: "step ev s = fire ev s" for ev
    using nr consistentD(9) [OF c] by (simp add: step_def)
  show ?thesis
  proof (cases "chan s")
    case (Cons x rest)
    then have "\<not> writer_done s" using consistentD(7) [OF c] by auto
    then have "fire Receive s = Some (s\<lparr>chan := rest, consumed := consumed s @ [x]\<rparr>)"
      using Cons by simp
    then show ?thesis using live by metis
  next
    case Nil
    show ?thesis
    proof (cases "\<exists>i<length (pending s). pending s ! i \<noteq> []")
      case True
      then obtain i x xs where i: "i < length (pending s)" "pending s ! i = x # xs"
        by (metis list.exhaust)
      have nc: "\<not> closed s" using closed_no_pending [OF c _ i(1)] i(2) by auto
      have "fire (Send i) s = Some (s\<lparr>pending := (pending s)[i := xs], chan := chan s @ [x]\<rparr>)"
        using i nc Nil by (simp add: chan_capacity_def)
      then show ?thesis using live by metis
    next
      case False
      then have idle: "\<And>i. i < length (pending s) \<Longrightarrow> pending s ! i = []" by blast
      show ?thesis
      proof (cases "\<exists>i<length (pending s). \<not> finished s ! i")
        case True
        then obtain i where i: "i < length (pending s)" "\<not> finished s ! i" by blast
        have "fire (WorkerDone i) s = Some (s\<lparr>finished := (finished s)[i := True]\<rparr>)"
          using i idle by simp
        then show ?thesis using live by metis
      next
        case False
        then have "\<forall>i<length (finished s). finished s ! i"
          using consistentD(1,2) [OF c] by simp
        then have all: "list_all id (finished s)" by (simp add: list_all_length)
        show ?thesis
        proof (cases "coord s")
          case WaitWorkers
          then have "fire WorkersJoined s = Some (s\<lparr>coord := CloseChan\<rparr>)" using all by simp
          then show ?thesis using live by metis
        next
          case CloseChan
          then have "fire Close s = Some (s\<lparr>closed := True, coord := WaitWriter\<rparr>)" by simp
          then show ?thesis using live by metis
        next
          case WaitWriter
          then have cl: "closed s" using consistentD(6) [OF c] by simp
          show ?thesis
          proof (cases "writer_done s")
            case True
            then have "fire WriterJoined s = Some (s\<lparr>coord := Returned\<rparr>)" using WaitWriter by simp
            then show ?thesis using live by metis
          next
            case False
            then have "fire WriterExit s = Some (s\<lparr>writer_done := True\<rparr>)" using cl Nil by simp
            then show ?thesis using live by metis
          qed
        next
          case Returned
          then show ?thesis using nr by simp
        qed
      qed
    qed
  qed
qed

lemma run_events_append:
  "run_events (evs @ evs') s = (case run_events evs s of None \<Rightarrow> None | Some s1 \<Rightarrow> run_events evs' s1)"
  by (induction evs arbitrary: s) (simp_all split: option.split)

lemma completion:
  "consistent qs s \<Longrightarrow> \<exists>evs s'. run_events evs s = Some s' \<and> coord s' = Returned"
proof (induction "work_left s" arbitrary: s rule: less_induct)
  case less
  show ?case
  proof (cases "coord s = Returned")
    case True
    then have "run_events [] s = Some s \<and> coord s = Returned" by simp
    then show ?thesis by blast
  next
    case False
    then obtain ev s1 where s1: "step ev s = Some s1" using progress [OF less.prems] by blast
    have "work_left s1 < work_left s" using work_left_step [OF less.prems s1] .
    moreover have "consistent qs s1" using consistent_step [OF less.prems s1] .
    ultimately obtain evs s' where r: "run_events evs s1 = Some s'" "coord s' = Returned"
      using less.hyps by blast
    have "run_events (ev # evs) s = Some s'" using s1 r(1) by simp
    then show ?thesis using r(2) by blast
  qed
qed

lemma run_bounded:
  "consistent qs s \<Longrightarrow> run_events evs s = Some s' \<Longrightarrow> length evs + work_left s' \<le> work_left s"
proof (induction evs arbitrary: s)
  case Nil
  then show ?case by simp
next
  case (Cons ev evs)
  from Cons.prems(2) obtain s1 where s1: "step ev s = Some s1" "run_events evs s1 = Some s'"
    by (cases "step ev s") simp_all
  have "length evs + work_left s' \<le> work_left s1"
    using Cons.IH [OF consistent_step [OF Cons.prems(1) s1(1)] s1(2)] .
  then show ?case using work_left_step [OF Cons.prems(1) s1(1)] by simp
qed

lemma work_left_init: "work_left (init qs) = 2 * length (concat qs) + length qs + 4"
  by (simp add: work_left_def init_def phase_rank_def)

lemma consistent_idle:
  assumes "consistent qs s" "closed s"
  shows "concat (pending s) = []"
proof -
  have "\<forall>q\<in>set (pending s). q = []"
    using closed_no_pending [OF assms] by (metis in_set_conv_nth)
  then show ?thesis by simp
qed

lemma consistent_returned:
  assumes c: "consistent qs s" and r: "coord s = Returned"
  shows "\<exists>sched. consumed s = resultsChan sched qs"
proof -
  have w: "writer_done s" using consistentD(8) [OF c r] .
  then have cl: "closed s" "chan s = []" using consistentD(7) [OF c] by simp_all
  obtain sched where d: "drain sched qs = (consumed s @ chan s, pending s)"
    using consistentD(3) [OF c] by blast
  have "resultsChan sched qs = consumed s @ chan s @ concat (pending s)"
    using resultsChan_drain [of sched qs] d by simp
  then have "resultsChan sched qs = consumed s"
    using cl(2) consistent_idle [OF c cl(1)] by simp
  then show ?thesis by metis
qed

text \<open>
  Claim C7. In every state the goroutines can reach from their start: no goroutine has
  panicked; the channel is closed only when every worker is done and has nothing left
  to send; the writer is done only when the channel is closed and its buffer empty; and
  \<open>main\<close> has returned only when the writer is done, the buffer is empty and the writer
  has received every result of every worker, in an order that is an interleaving of the
  workers' sequences. Every run is finite, and every run can be continued until \<open>main\<close>
  returns.
\<close>

theorem shutdown_after_drain:
  assumes "run_events evs (init qs) = Some s"
  shows "\<not> panicked s
     \<and> (closed s \<longrightarrow> list_all id (finished s) \<and> concat (pending s) = [])
     \<and> (writer_done s \<longrightarrow> closed s \<and> chan s = [])
     \<and> (coord s = Returned \<longrightarrow>
           writer_done s \<and> closed s \<and> chan s = [] \<and> concat (pending s) = []
         \<and> mset (consumed s) = mset (concat qs)
         \<and> (\<exists>sched. consumed s = resultsChan sched qs))
     \<and> length evs \<le> 2 * length (concat qs) + length qs + 4
     \<and> (\<exists>evs' s'. run_events (evs @ evs') (init qs) = Some s' \<and> coord s' = Returned)"
proof -
  have c: "consistent qs s"
    using consistent_run [OF consistent_init assms] .
  have p1: "\<not> panicked s" using consistentD(9) [OF c] .
  have p2: "list_all id (finished s) \<and> concat (pending s) = []" if "closed s"
    using consistentD(5,6) [OF c] consistent_idle [OF c that] that by auto
  have p3: "closed s \<and> chan s = []" if "writer_done s"
    using consistentD(7) [OF c that] .
  have p4: "writer_done s \<and> closed s \<and> chan s = [] \<and> concat (pending s) = []
         \<and> mset (consumed s) = mset (concat qs)
         \<and> (\<exists>sched. consumed s = resultsChan sched qs)" if r: "coord s = Returned"
  proof -
    have w: "writer_done s" using consistentD(8) [OF c r] .
    obtain sched where sc: "consumed s = resultsChan sched qs"
      using consistent_returned [OF c r] by blast
    then have "mset (consumed s) = mset (concat qs)" by (simp add: mset_resultsChan)
    then show ?thesis using w p3 [OF w] p2 sc by blast
  qed
  have "length evs + work_left s \<le> work_left (init qs)"
    using run_bounded [OF consistent_init assms] .
  then have p5: "length evs \<le> 2 * length (concat qs) + length qs + 4"
    by (simp add: work_left_init)
  obtain evs' s' where "run_events evs' s = Some s'" "coord s' = Returned"
    using completion [OF c] by blast
  then have p6: "\<exists>evs' s'. run_events (evs @ evs') (init qs) = Some s' \<and> coord s' = Returned"
    using assms by (auto simp: run_events_append)
  show ?thesis using p1 p2 p3 p4 p5 p6 by blast
qed

lemma scenario_outcomes:
  "outcomes (main scenario None) =
     [[\<lparr>RepoID = 1, Owner = ''acme'', Name = ''api'', FilePath = ''go.mod'', Success = True,
         Error = [], ImportedAt = 10\<rparr>,
       \<lparr>RepoID = 1, Owner = ''acme'', Name = ''api'', FilePath = ''package.json'',
         Success = False, Error = ''Snyk API returned status: '' @ fmt_d 500, ImportedAt = 20\<rparr>]]"
  by (simp add: scenario_defs)

lemma scenario_events_run:
  "\<exists>s. run_events scenario_events (init [[r1, r2]]) = Some s \<and> coord s = Returned
      \<and> consumed s = [r1, r2]"
  by (simp add: scenario_events_def init_def step_def chan_capacity_def)

text \<open>The schedule of the scenario ends with both results received.\<close>

theorem shutdown_after_drain_witness:
  "\<exists>s. run_events scenario_events (init (outcomes (main scenario None))) = Some s
      \<and> coord s = Returned \<and> chan s = []
      \<and> mset (consumed s) = mset (concat (outcomes (main scenario None)))"
proof -
  obtain s where s: "run_events scenario_events (init (outcomes (main scenario None))) = Some s"
    "coord s = Returned"
    using scenario_events_run by (simp only: scenario_outcomes) blast
  show ?thesis using shutdown_after_drain [OF s(1)] s by blast
qed

section \<open>Properties of the Rate Gate\<close>










end
